theory Spec2Isabelle
  imports Main "HOL-Library.Multiset"
begin

section \<open>Data model\<close>

text \<open>
  The exceptions the Python code can raise: an index outside a list, \<open>list.remove\<close> of an
  absent element, \<open>%\<close> and \<open>//\<close> by zero, and the interpreter's recursion limit.
\<close>

datatype error = IndexError | ValueError | ZeroDivisionError | RecursionError

text \<open>
  Class \<open>Board\<close> (module \<open>board\<close>). Its attribute \<open>size\<close> is the field \<open>size_b\<close>
  and its attribute \<open>board\<close>, the flat list of cells, is the field \<open>cells\<close>.
\<close>

record Board =
  size_b :: int
  cells :: "int list"

text \<open>
  Class \<open>TicTacToeManager\<close>, with the board held by value. The store model, where the
  manager holds a reference to a board object, is in the section on board objects.
\<close>

record manager =
  board :: Board
  crosses :: "int list"
  noughts :: "int list"
  turn :: int
  pieces_to_win :: int

text \<open>
  The values \<open>search\<close> works with: Python integers and the floats
  \<open>float('-infinity')\<close> and \<open>float('+infinity')\<close>.
\<close>

datatype ext = MInf | Fin int | PInf

fun neg :: "ext \<Rightarrow> ext" where
  "neg MInf = PInf"
| "neg (Fin i) = Fin (- i)"
| "neg PInf = MInf"

fun ext_less :: "ext \<Rightarrow> ext \<Rightarrow> bool" where
  "ext_less PInf _ = False"
| "ext_less _ MInf = False"
| "ext_less MInf _ = True"
| "ext_less _ PInf = True"
| "ext_less (Fin a) (Fin b) = (a < b)"

definition ext_ge :: "ext \<Rightarrow> ext \<Rightarrow> bool" where
  "ext_ge a b = (\<not> ext_less a b)"

text \<open>The order of these values, for \<open>max\<close> and for the statements about \<open>search\<close>.\<close>

instantiation ext :: linorder
begin

definition less_ext :: "ext \<Rightarrow> ext \<Rightarrow> bool" where
  "less_ext a b = ext_less a b"

definition less_eq_ext :: "ext \<Rightarrow> ext \<Rightarrow> bool" where
  "less_eq_ext a b = (a = b \<or> ext_less a b)"

instance
proof
  fix x y z :: ext
  show "(x < y) = (x \<le> y \<and> \<not> y \<le> x)"
    by (cases x; cases y) (auto simp: less_ext_def less_eq_ext_def)
  show "x \<le> x"
    by (simp add: less_eq_ext_def)
  show "x \<le> y \<Longrightarrow> y \<le> z \<Longrightarrow> x \<le> z"
    by (cases x; cases y; cases z) (auto simp: less_eq_ext_def)
  show "x \<le> y \<Longrightarrow> y \<le> x \<Longrightarrow> x = y"
    by (cases x; cases y) (auto simp: less_eq_ext_def)
  show "x \<le> y \<or> y \<le> x"
    by (cases x; cases y) (auto simp: less_eq_ext_def)
qed

end

section \<open>Python lists\<close>

text \<open>
  \<open>xs[i]\<close>: a negative index counts from the end, an index outside
  \<open>[-len, len)\<close> raises IndexError.
\<close>

definition py_index :: "'a list \<Rightarrow> int \<Rightarrow> nat option" where
  "py_index xs i =
     (let n = int (length xs)
      in if 0 \<le> i \<and> i < n then Some (nat i)
         else if - n \<le> i \<and> i < 0 then Some (nat (n + i))
         else None)"

definition getitem :: "'a list \<Rightarrow> int \<Rightarrow> error + 'a" where
  "getitem xs i = (case py_index xs i of None \<Rightarrow> Inl IndexError | Some k \<Rightarrow> Inr (xs ! k))"

definition setitem :: "'a list \<Rightarrow> int \<Rightarrow> 'a \<Rightarrow> error + 'a list" where
  "setitem xs i v = (case py_index xs i of None \<Rightarrow> Inl IndexError | Some k \<Rightarrow> Inr (xs[k := v]))"

text \<open>\<open>xs.remove(v)\<close> deletes the first occurrence and raises ValueError when there is none.\<close>

definition list_remove :: "int list \<Rightarrow> int \<Rightarrow> error + int list" where
  "list_remove xs v = (if v \<in> set xs then Inr (remove1 v xs) else Inl ValueError)"

section \<open>Board\<close>

text \<open>
  Modelled from the spec: the constructor \<open>Board(size)\<close> and the method
  \<open>Board.create_board\<close> of module \<open>board\<close>, which is not among the sources. The spec
  (4.1): \<open>create(size)\<close> allocates \<open>size*size\<close> cells set to 0; \<open>reset()\<close> sets every
  cell to 0.
\<close>

definition Board_init :: "int \<Rightarrow> Board" where
  "Board_init n = \<lparr>size_b = n, cells = replicate (nat (n * n)) 0\<rparr>"

definition create_board :: "Board \<Rightarrow> Board" where
  "create_board b = b\<lparr>cells := replicate (nat (size_b b * size_b b)) 0\<rparr>"

section \<open>TicTacToeManager\<close>

text \<open>
  \<open>__init__(self, board, pieces_to_win=None)\<close>: \<open>not pieces_to_win\<close> holds for \<open>None\<close>
  and for 0. Nothing is validated and nothing is raised.
\<close>

definition manager_init :: "Board \<Rightarrow> int option \<Rightarrow> error + manager" where
  "manager_init b ptw =
     (let k = (case ptw of None \<Rightarrow> size_b b | Some p \<Rightarrow> if p = 0 then size_b b else p)
      in Inr \<lparr>board = b, crosses = [], noughts = [], turn = 1, pieces_to_win = k\<rparr>)"

definition reset_board :: "manager \<Rightarrow> manager" where
  "reset_board m = m\<lparr>board := create_board (board m)\<rparr>"

definition make_move :: "int \<Rightarrow> manager \<Rightarrow> error + manager" where
  "make_move cell m =
     (let m1 = (if turn m = 1 then m\<lparr>crosses := crosses m @ [cell]\<rparr>
                else m\<lparr>noughts := noughts m @ [cell]\<rparr>)
      in case setitem (cells (board m1)) cell (turn m1) of
           Inl e \<Rightarrow> Inl e
         | Inr cs \<Rightarrow> Inr (m1\<lparr>board := (board m1)\<lparr>cells := cs\<rparr>, turn := turn m1 * (- 1)\<rparr>))"

definition unmake_move :: "int \<Rightarrow> manager \<Rightarrow> error + manager" where
  "unmake_move cell m =
     (case (if turn m = - 1
            then (case list_remove (crosses m) cell of
                    Inl e \<Rightarrow> Inl e | Inr xs \<Rightarrow> Inr (m\<lparr>crosses := xs\<rparr>))
            else (case list_remove (noughts m) cell of
                    Inl e \<Rightarrow> Inl e | Inr xs \<Rightarrow> Inr (m\<lparr>noughts := xs\<rparr>))) of
        Inl e \<Rightarrow> Inl e
      | Inr m1 \<Rightarrow>
          (case setitem (cells (board m1)) cell 0 of
             Inl e \<Rightarrow> Inl e
           | Inr cs \<Rightarrow> Inr (m1\<lparr>board := (board m1)\<lparr>cells := cs\<rparr>, turn := turn m1 * (- 1)\<rparr>)))"

text \<open>
  \<open>find_legal_moves\<close>: the loop over \<open>enumerate(self.board.board)\<close> with the
  accumulator \<open>legal_moves\<close>. The method assigns to nothing but its local list; the
  manager is returned beside the result so that this can be stated.
\<close>

fun legal_moves_loop :: "int \<Rightarrow> int list \<Rightarrow> int list \<Rightarrow> int list" where
  "legal_moves_loop i [] legal_moves = legal_moves"
| "legal_moves_loop i (cell # rest) legal_moves =
     legal_moves_loop (i + 1) rest (if cell = 0 then legal_moves @ [i] else legal_moves)"

definition find_legal_moves :: "manager \<Rightarrow> int list \<times> manager" where
  "find_legal_moves m = (legal_moves_loop 0 (cells (board m)) [], m)"

text \<open>
  \<open>check_borders\<close>: \<open>%\<close> and \<open>//\<close> are floor division, as \<open>mod\<close> and \<open>div\<close> on
  \<open>int\<close> are, and raise ZeroDivisionError for a board of size 0.
\<close>

definition check_borders :: "Board \<Rightarrow> int \<Rightarrow> int \<times> int \<Rightarrow> error + bool" where
  "check_borders b cell direction =
     (if size_b b = 0 then Inl ZeroDivisionError
      else let x = cell mod size_b b; y = cell div size_b b
           in Inr (0 \<le> x + fst direction \<and> x + fst direction < size_b b
                 \<and> 0 \<le> y + snd direction \<and> y + snd direction < size_b b))"

definition directions :: "(int \<times> int) list" where
  "directions = [(- 1, - 1), (0, - 1), (1, - 1),
                 (- 1, 0),            (1, 0),
                 (- 1, 1),  (0, 1),  (1, 1)]"

text \<open>
  The inner loop of \<open>check_win_at_cell\<close>, \<open>for i in range(1, self.pieces_to_win)\<close>, over
  the remaining values of \<open>i\<close>. The result \<open>Inr True\<close> is the loop's \<open>else\<close> branch (it
  ran to its end), \<open>Inr False\<close> a \<open>break\<close>. The first component lists the indices at
  which \<open>self.board.board\<close> was read, in order.
\<close>

fun direction_walk ::
  "Board \<Rightarrow> int \<Rightarrow> int \<Rightarrow> int \<times> int \<Rightarrow> int \<Rightarrow> int list \<Rightarrow> int list \<times> (error + bool)" where
  "direction_walk b cell cell_content direction next_cell [] = ([], Inr True)"
| "direction_walk b cell cell_content direction next_cell (i # rest) =
     (case check_borders b next_cell direction of
        Inl e \<Rightarrow> ([], Inl e)
      | Inr False \<Rightarrow> ([], Inr False)
      | Inr True \<Rightarrow>
          (let next_cell' = cell + (fst direction + snd direction * size_b b) * i
           in case getitem (cells b) next_cell' of
                Inl e \<Rightarrow> ([next_cell'], Inl e)
              | Inr next_cell_content \<Rightarrow>
                  if next_cell_content \<noteq> cell_content then ([next_cell'], Inr False)
                  else (case direction_walk b cell cell_content direction next_cell' rest of
                          (reads, r) \<Rightarrow> (next_cell' # reads, r))))"

text \<open>The outer loop of \<open>check_win_at_cell\<close>, over the remaining directions.\<close>

fun directions_loop :: "Board \<Rightarrow> int \<Rightarrow> int \<Rightarrow> int \<Rightarrow> (int \<times> int) list \<Rightarrow> error + int" where
  "directions_loop b k cell cell_content [] = Inr 0"
| "directions_loop b k cell cell_content (direction # rest) =
     (case snd (direction_walk b cell cell_content direction cell [1..k - 1]) of
        Inl e \<Rightarrow> Inl e
      | Inr True \<Rightarrow> Inr 1
      | Inr False \<Rightarrow> directions_loop b k cell cell_content rest)"

definition check_win_at_cell :: "manager \<Rightarrow> int \<Rightarrow> error + int" where
  "check_win_at_cell m cell =
     (case getitem (cells (board m)) cell of
        Inl e \<Rightarrow> Inl e
      | Inr cell_content \<Rightarrow>
          directions_loop (board m) (pieces_to_win m) cell cell_content directions)"

fun check_win_loop :: "manager \<Rightarrow> int list \<Rightarrow> error + int" where
  "check_win_loop m [] = Inr 0"
| "check_win_loop m (cell # rest) =
     (case check_win_at_cell m cell of
        Inl e \<Rightarrow> Inl e
      | Inr finished \<Rightarrow> if finished \<noteq> 0 then Inr finished else check_win_loop m rest)"

definition check_win :: "manager \<Rightarrow> error + int" where
  "check_win m = check_win_loop m (if turn m = - 1 then crosses m else noughts m)"

section \<open>Adversary\<close>

text \<open>
  The loop of \<open>search\<close> over the remaining moves. \<open>rec\<close> is the recursive call
  \<open>self.search(depth - 1, ...)\<close>; it takes the two bounds and the manager and returns
  the value and the manager as the call left it.
\<close>

fun search_loop ::
  "(ext \<Rightarrow> ext \<Rightarrow> manager \<Rightarrow> error + (ext \<times> manager)) \<Rightarrow> int list \<Rightarrow> ext \<Rightarrow> ext \<Rightarrow> manager
     \<Rightarrow> error + (ext \<times> manager)" where
  "search_loop rec [] alpha beta m = Inr (alpha, m)"
| "search_loop rec (cell # rest) alpha beta m =
     (case make_move cell m of
        Inl e \<Rightarrow> Inl e
      | Inr m1 \<Rightarrow>
          (case rec (neg beta) (neg alpha) m1 of
             Inl e \<Rightarrow> Inl e
           | Inr (v, m2) \<Rightarrow>
               (let evaluation = neg v
                in case unmake_move cell m2 of
                     Inl e \<Rightarrow> Inl e
                   | Inr m3 \<Rightarrow>
                       if ext_ge evaluation beta then Inr (beta, m3)
                       else search_loop rec rest
                              (if ext_less alpha evaluation then evaluation else alpha) beta m3)))"

text \<open>
  \<open>search(depth, alpha, beta)\<close>. The first argument is the number of stack frames the
  interpreter still allows: a call with none left raises RecursionError. Python's \<open>depth\<close>
  is an integer and is only compared with 0, so a negative depth never stops the descent.
\<close>

fun search :: "nat \<Rightarrow> int \<Rightarrow> ext \<Rightarrow> ext \<Rightarrow> manager \<Rightarrow> error + (ext \<times> manager)" where
  "search 0 depth alpha beta m = Inl RecursionError"
| "search (Suc frames) depth alpha beta m =
     (if depth = 0 then Inr (Fin 0, m)
      else case check_win m of
             Inl e \<Rightarrow> Inl e
           | Inr win \<Rightarrow>
               if win \<noteq> 0 then Inr (Fin (win + depth), m)
               else (case find_legal_moves m of
                       (available_moves, m') \<Rightarrow>
                         if available_moves = [] then Inr (Fin 0, m')
                         else search_loop (search frames (depth - 1)) available_moves alpha beta m'))"

text \<open>The loop of \<open>search_root\<close>, with \<open>best_eval\<close> and \<open>best_move\<close>.\<close>

fun search_root_loop ::
  "nat \<Rightarrow> int \<Rightarrow> int list \<Rightarrow> ext \<Rightarrow> int option \<Rightarrow> manager \<Rightarrow> error + (int option \<times> manager)" where
  "search_root_loop frames depth [] best_eval best_move m = Inr (best_move, m)"
| "search_root_loop frames depth (move # rest) best_eval best_move m =
     (case make_move move m of
        Inl e \<Rightarrow> Inl e
      | Inr m1 \<Rightarrow>
          (case search frames (depth - 1) MInf PInf m1 of
             Inl e \<Rightarrow> Inl e
           | Inr (evaluation, m2) \<Rightarrow>
               (case unmake_move move m2 of
                  Inl e \<Rightarrow> Inl e
                | Inr m3 \<Rightarrow>
                    if ext_less best_eval evaluation
                    then search_root_loop frames depth rest evaluation (Some move) m3
                    else search_root_loop frames depth rest best_eval best_move m3)))"

definition search_root :: "nat \<Rightarrow> int \<Rightarrow> manager \<Rightarrow> error + (int option \<times> manager)" where
  "search_root frames depth m =
     (case find_legal_moves m of
        (moves, m') \<Rightarrow> search_root_loop frames depth moves MInf None m')"


section \<open>Callers\<close>

text \<open>A caller that applies \<open>make_move\<close> to each cell of a list in turn.\<close>

fun play :: "int list \<Rightarrow> manager \<Rightarrow> error + manager" where
  "play [] m = Inr m"
| "play (cell # rest) m =
     (case make_move cell m of Inl e \<Rightarrow> Inl e | Inr m1 \<Rightarrow> play rest m1)"

text \<open>
  Both sides choose their move with \<open>search_root(depth)\<close> and apply it, for at most
  \<open>rounds\<close> moves. The game stops when no move is left or when \<open>check_win\<close> is nonzero
  after a move. The result lists each move with the value of \<open>check_win\<close> after it.
\<close>

fun self_play :: "nat \<Rightarrow> nat \<Rightarrow> int \<Rightarrow> manager \<Rightarrow> error + (int \<times> int) list" where
  "self_play 0 frames depth m = Inr []"
| "self_play (Suc rounds) frames depth m =
     (case search_root frames depth m of
        Inl e \<Rightarrow> Inl e
      | Inr (None, m1) \<Rightarrow> Inr []
      | Inr (Some move, m1) \<Rightarrow>
          (case make_move move m1 of
             Inl e \<Rightarrow> Inl e
           | Inr m2 \<Rightarrow>
               (case check_win m2 of
                  Inl e \<Rightarrow> Inl e
                | Inr win \<Rightarrow>
                    if win \<noteq> 0 then Inr [(move, win)]
                    else (case self_play rounds frames depth m2 of
                            Inl e \<Rightarrow> Inl e
                          | Inr log \<Rightarrow> Inr ((move, win) # log)))))"

section \<open>Board objects in a store\<close>

text \<open>
  Python holds a \<open>Board\<close> by reference. The store is the list of the board objects
  allocated so far and an address is a position in it. The default value of the parameter
  \<open>board\<close> of \<open>__init__\<close>, \<open>Board(3)\<close>, is evaluated once, when the \<open>def\<close> statement
  runs: it is the object at \<open>default_board\<close> of \<open>module_heap\<close>. The lists \<open>crosses\<close>
  and \<open>noughts\<close> are created by each call of \<open>__init__\<close>.
\<close>

type_synonym addr = nat
type_synonym heap = "Board list"

record manager_obj =
  board_ref :: addr
  obj_crosses :: "int list"
  obj_noughts :: "int list"
  obj_turn :: int
  obj_pieces_to_win :: int

definition default_board :: addr where
  "default_board = 0"

definition module_heap :: heap where
  "module_heap = [Board_init 3]"

definition Board_new :: "int \<Rightarrow> heap \<Rightarrow> addr \<times> heap" where
  "Board_new n h = (length h, h @ [Board_init n])"

definition load :: "heap \<Rightarrow> manager_obj \<Rightarrow> manager" where
  "load h obj =
     \<lparr>board = h ! board_ref obj, crosses = obj_crosses obj, noughts = obj_noughts obj,
      turn = obj_turn obj, pieces_to_win = obj_pieces_to_win obj\<rparr>"

definition store :: "addr \<Rightarrow> manager \<Rightarrow> heap \<Rightarrow> manager_obj \<times> heap" where
  "store a m h =
     (\<lparr>board_ref = a, obj_crosses = crosses m, obj_noughts = noughts m,
       obj_turn = turn m, obj_pieces_to_win = pieces_to_win m\<rparr>, h[a := board m])"

definition TicTacToeManager_new ::
  "addr option \<Rightarrow> int option \<Rightarrow> heap \<Rightarrow> error + (manager_obj \<times> heap)" where
  "TicTacToeManager_new board_arg ptw h =
     (let a = (case board_arg of None \<Rightarrow> default_board | Some a' \<Rightarrow> a')
      in case manager_init (h ! a) ptw of
           Inl e \<Rightarrow> Inl e
         | Inr m \<Rightarrow> Inr (store a m h))"

definition obj_make_move :: "int \<Rightarrow> manager_obj \<Rightarrow> heap \<Rightarrow> error + (manager_obj \<times> heap)" where
  "obj_make_move cell obj h =
     (case make_move cell (load h obj) of
        Inl e \<Rightarrow> Inl e
      | Inr m \<Rightarrow> Inr (store (board_ref obj) m h))"

section \<open>Invariants and reachable states\<close>

definition empties :: "manager \<Rightarrow> nat" where
  "empties m = length [c \<leftarrow> cells (board m). c = 0]"

text \<open>
  What every state the operations can produce satisfies: a square board of positive size, a
  turn of 1 or -1, and history lists of cells of the board.
\<close>

definition well_formed :: "manager \<Rightarrow> bool" where
  "well_formed m =
     (let n = size_b (board m)
      in 0 < n \<and> int (length (cells (board m))) = n * n
         \<and> (turn m = 1 \<or> turn m = - 1)
         \<and> (\<forall>c \<in> set (crosses m) \<union> set (noughts m). 0 \<le> c \<and> c < n * n))"

text \<open>
  The invariant of the spec (3, GameState): the history lists are disjoint, without
  repetition, and hold exactly the cells with the mark of their side.
\<close>

definition consistent :: "manager \<Rightarrow> bool" where
  "consistent m =
     (let n = size_b (board m); cs = cells (board m)
      in well_formed m \<and> distinct (crosses m) \<and> distinct (noughts m)
         \<and> (\<forall>i \<in> set [0..n * n - 1].
               (cs ! nat i = 1 \<longleftrightarrow> i \<in> set (crosses m))
             \<and> (cs ! nat i = - 1 \<longleftrightarrow> i \<in> set (noughts m))
             \<and> (cs ! nat i = 1 \<or> cs ! nat i = 0 \<or> cs ! nat i = - 1)))"

text \<open>
  The states the operations of the manager lead to, with the moves made and not yet taken
  back, the latest first: construction on a fresh board of positive size, \<open>make_move\<close> of
  a legal move, \<open>unmake_move\<close> of the latest move, and \<open>reset_board\<close>.
\<close>

inductive reach :: "manager \<Rightarrow> int list \<Rightarrow> bool" where
  reach_init: "0 < n \<Longrightarrow> manager_init (Board_init n) ptw = Inr m \<Longrightarrow> reach m []"
| reach_make: "reach m undo \<Longrightarrow> cell \<in> set (fst (find_legal_moves m))
     \<Longrightarrow> make_move cell m = Inr m' \<Longrightarrow> reach m' (cell # undo)"
| reach_unmake: "reach m (cell # undo) \<Longrightarrow> unmake_move cell m = Inr m' \<Longrightarrow> reach m' undo"
| reach_reset: "reach m undo \<Longrightarrow> reach (reset_board m) []"

definition reachable :: "manager \<Rightarrow> bool" where
  "reachable m = (\<exists>undo. reach m undo)"

section \<open>Specifications\<close>

text \<open>
  The side that moved last is the one opposite to \<open>turn\<close>; its cells are \<open>crosses\<close> for
  the mark 1 and \<open>noughts\<close> for the mark -1.
\<close>

definition just_moved :: "manager \<Rightarrow> int" where
  "just_moved m = - turn m"

definition placed :: "manager \<Rightarrow> int \<Rightarrow> int list" where
  "placed m mark = (if mark = 1 then crosses m else noughts m)"

text \<open>
  The cell \<open>i\<close> steps from \<open>cell\<close> in a direction, by its column and row, and whether
  it lies on the grid.
\<close>

definition step_x :: "Board \<Rightarrow> int \<Rightarrow> int \<times> int \<Rightarrow> int \<Rightarrow> int" where
  "step_x b cell direction i = cell mod size_b b + i * fst direction"

definition step_y :: "Board \<Rightarrow> int \<Rightarrow> int \<times> int \<Rightarrow> int \<Rightarrow> int" where
  "step_y b cell direction i = cell div size_b b + i * snd direction"

definition on_grid :: "Board \<Rightarrow> int \<Rightarrow> int \<times> int \<Rightarrow> int \<Rightarrow> bool" where
  "on_grid b cell direction i =
     (0 \<le> step_x b cell direction i \<and> step_x b cell direction i < size_b b
      \<and> 0 \<le> step_y b cell direction i \<and> step_y b cell direction i < size_b b)"

definition grid_index :: "Board \<Rightarrow> int \<Rightarrow> int \<times> int \<Rightarrow> int \<Rightarrow> int" where
  "grid_index b cell direction i =
     step_y b cell direction i * size_b b + step_x b cell direction i"

text \<open>
  \<open>k\<close> consecutive cells with the mark, from \<open>cell\<close> in a direction, all on the grid.
\<close>

definition line_from :: "Board \<Rightarrow> int \<Rightarrow> int \<Rightarrow> int \<Rightarrow> int \<times> int \<Rightarrow> bool" where
  "line_from b k mark cell direction =
     (\<forall>i \<in> set [0..k - 1].
        on_grid b cell direction i \<and> cells b ! nat (grid_index b cell direction i) = mark)"

definition has_win :: "manager \<Rightarrow> bool" where
  "has_win m =
     (\<exists>cell \<in> set (placed m (just_moved m)). \<exists>direction \<in> set directions.
        line_from (board m) (pieces_to_win m) (just_moved m) cell direction)"

text \<open>
  Some direction from \<open>cell\<close> holds \<open>k\<close> consecutive cells with the content of
  \<open>cell\<close>: what \<open>check_win_at_cell\<close> decides.
\<close>

definition cell_wins :: "Board \<Rightarrow> int \<Rightarrow> int \<Rightarrow> bool" where
  "cell_wins b k cell =
     (\<exists>direction \<in> set directions. line_from b k (cells b ! nat cell) cell direction)"

text \<open>
  Negamax without pruning, with the terminal values of \<open>search\<close>: every legal move is
  tried from the same position and the greatest negated value is returned.
\<close>

fun negamax_loop ::
  "(manager \<Rightarrow> error + ext) \<Rightarrow> int list \<Rightarrow> manager \<Rightarrow> ext \<Rightarrow> error + ext" where
  "negamax_loop rec [] m best = Inr best"
| "negamax_loop rec (cell # rest) m best =
     (case make_move cell m of
        Inl e \<Rightarrow> Inl e
      | Inr m1 \<Rightarrow>
          (case rec m1 of
             Inl e \<Rightarrow> Inl e
           | Inr v \<Rightarrow> negamax_loop rec rest m (max best (neg v))))"

fun negamax :: "nat \<Rightarrow> int \<Rightarrow> manager \<Rightarrow> error + ext" where
  "negamax 0 depth m = Inl RecursionError"
| "negamax (Suc frames) depth m =
     (if depth = 0 then Inr (Fin 0)
      else case check_win m of
             Inl e \<Rightarrow> Inl e
           | Inr win \<Rightarrow>
               if win \<noteq> 0 then Inr (Fin (win + depth))
               else if fst (find_legal_moves m) = [] then Inr (Fin 0)
               else negamax_loop (negamax frames (depth - 1)) (fst (find_legal_moves m)) m MInf)"

text \<open>
  The evaluation \<open>search_root\<close> gives a move: the value of \<open>self.search(depth - 1)\<close>
  after \<open>make_move(move)\<close>.
\<close>

definition move_evaluation :: "nat \<Rightarrow> int \<Rightarrow> manager \<Rightarrow> int \<Rightarrow> error + ext" where
  "move_evaluation frames depth m move =
     (case make_move move m of
        Inl e \<Rightarrow> Inl e
      | Inr m1 \<Rightarrow>
          (case search frames (depth - 1) MInf PInf m1 of
             Inl e \<Rightarrow> Inl e
           | Inr (evaluation, m2) \<Rightarrow> Inr evaluation))"

text \<open>
  Two states of the same position: the same board, turn and win length, and history lists
  with the same cells, in any order.
\<close>

definition same_position :: "manager \<Rightarrow> manager \<Rightarrow> bool" where
  "same_position m m' =
     (board m = board m' \<and> turn m = turn m' \<and> pieces_to_win m = pieces_to_win m'
      \<and> mset (crosses m) = mset (crosses m') \<and> mset (noughts m) = mset (noughts m'))"

text \<open>
  What a fail-hard search with the window \<open>(a, b)\<close> may return, \<open>r\<close>, for a position of
  value \<open>v\<close>: the value itself inside the window, and a bound on its side outside.
\<close>

definition sound :: "ext \<Rightarrow> ext \<Rightarrow> ext \<Rightarrow> ext \<Rightarrow> bool" where
  "sound a b v r = ((v \<le> a \<longrightarrow> r \<le> a) \<and> (a < v \<and> v < b \<longrightarrow> r = v) \<and> (b \<le> v \<longrightarrow> b \<le> r))"

text \<open>The negated negamax value of the position after a move.\<close>

definition move_value :: "nat \<Rightarrow> int \<Rightarrow> manager \<Rightarrow> int \<Rightarrow> ext" where
  "move_value frames depth m cell =
     (case make_move cell m of
        Inl e \<Rightarrow> MInf
      | Inr m1 \<Rightarrow> (case negamax frames depth m1 of Inl e \<Rightarrow> MInf | Inr v \<Rightarrow> neg v))"

text \<open>
  The move \<open>search_root\<close> keeps, given the evaluation of each move: the current best is
  replaced only by a strictly greater evaluation.
\<close>

fun pick :: "(int \<Rightarrow> ext) \<Rightarrow> int list \<Rightarrow> ext \<Rightarrow> int option \<Rightarrow> int option" where
  "pick ev [] best_eval best_move = best_move"
| "pick ev (move # rest) best_eval best_move =
     (if best_eval < ev move then pick ev rest (ev move) (Some move)
      else pick ev rest best_eval best_move)"

section \<open>An evaluator for the 3x3 board\<close>

text \<open>
  For the game on the 3x3 board with win length 3, \<open>search\<close> and \<open>search_root\<close>
  are evaluated on the cells and the turn alone: the win check reads the eight lines of the
  board, and a move is a list update. The functions below follow \<open>search\<close> step by step,
  with the same cuts; they are proved equal to it on the states of that game.
\<close>

definition line3 :: "int \<Rightarrow> int \<Rightarrow> int \<Rightarrow> int \<Rightarrow> bool" where
  "line3 p x y z = (if x = p then (if y = p then z = p else False) else False)"

fun fwon :: "int list \<Rightarrow> int \<Rightarrow> bool" where
  "fwon [a, b, c, d, e, f, g, h, i] p =
     (if line3 p a b c then True else if line3 p d e f then True else if line3 p g h i then True
      else if line3 p a d g then True else if line3 p b e h then True
      else if line3 p c f i then True else if line3 p a e i then True else line3 p c e g)"
| "fwon _ p = False"

fun floop :: "(int \<Rightarrow> ext \<Rightarrow> ext \<Rightarrow> ext) \<Rightarrow> int list \<Rightarrow> ext \<Rightarrow> ext \<Rightarrow> ext" where
  "floop g [] a b = a"
| "floop g (c # cs) a b =
     (let e = neg (g c (neg b) (neg a))
      in if ext_ge e b then b else floop g cs (if ext_less a e then e else a) b)"

fun fsearch :: "nat \<Rightarrow> int \<Rightarrow> ext \<Rightarrow> ext \<Rightarrow> int list \<Rightarrow> int \<Rightarrow> ext" where
  "fsearch 0 d a b cs t = Fin 0"
| "fsearch (Suc f) d a b cs t =
     (if d = 0 then Fin 0
      else if fwon cs (- t) then Fin (1 + d)
      else (let L = legal_moves_loop 0 cs []
            in if L = [] then Fin 0
               else floop (\<lambda>c a' b'. fsearch f (d - 1) a' b' (cs[nat c := t]) (- t)) L a b))"

fun fpick :: "(int \<Rightarrow> ext) \<Rightarrow> int list \<Rightarrow> ext \<Rightarrow> int option \<Rightarrow> int option" where
  "fpick ev [] be bm = bm"
| "fpick ev (c # cs) be bm =
     (let e = ev c in if ext_less be e then fpick ev cs e (Some c) else fpick ev cs be bm)"

definition froot :: "nat \<Rightarrow> int \<Rightarrow> int list \<Rightarrow> int \<Rightarrow> int option" where
  "froot f d cs t =
     fpick (\<lambda>c. fsearch f (d - 1) MInf PInf (cs[nat c := t]) (- t))
       (legal_moves_loop 0 cs []) MInf None"

text \<open>The states of that game: the history lists agree with a 3x3 board, and three in a row win.\<close>

definition standard :: "manager \<Rightarrow> bool" where
  "standard m = (consistent m \<and> size_b (board m) = 3 \<and> pieces_to_win m = 3)"

section \<open>Python lists, in range\<close>

lemma setitem_in_range:
  "0 \<le> i \<Longrightarrow> i < int (length xs) \<Longrightarrow> setitem xs i v = Inr (xs[nat i := v])"
  by (simp add: setitem_def py_index_def)

lemma getitem_in_range:
  "0 \<le> i \<Longrightarrow> i < int (length xs) \<Longrightarrow> getitem xs i = Inr (xs ! nat i)"
  by (simp add: getitem_def py_index_def)

section \<open>Legal moves\<close>

lemma legal_moves_loop_eq:
  "legal_moves_loop i cs acc
     = acc @ [j \<leftarrow> map (\<lambda>k. i + int k) [0..<length cs]. cs ! nat (j - i) = 0]"
proof (induction cs arbitrary: i acc)
  case Nil
  then show ?case by simp
next
  case (Cons c cs)
  have m: "map (\<lambda>k. i + int k) [0..<Suc (length cs)]
             = i # map (\<lambda>k. (i + 1) + int k) [0..<length cs]"
    by (simp add: upt_conv_Cons map_Suc_upt[symmetric] del: upt_Suc)
  have f: "[j \<leftarrow> map (\<lambda>k. (i + 1) + int k) [0..<length cs]. (c' # cs) ! nat (j - i) = 0]
             = [j \<leftarrow> map (\<lambda>k. (i + 1) + int k) [0..<length cs]. cs ! nat (j - (i + 1)) = 0]"
    for c'
    by (rule filter_cong) (auto simp: nat_add_distrib)
  show ?case
    using Cons.IH[of "i + 1"] by (simp add: m f del: upt_Suc)
qed

lemma find_legal_moves_eq:
  "fst (find_legal_moves m)
     = [j \<leftarrow> map int [0..<length (cells (board m))]. cells (board m) ! nat j = 0]"
  by (simp add: find_legal_moves_def legal_moves_loop_eq)

lemma legal_move_iff:
  "cell \<in> set (fst (find_legal_moves m))
     \<longleftrightarrow> 0 \<le> cell \<and> cell < int (length (cells (board m))) \<and> cells (board m) ! nat cell = 0"
  by (auto simp: find_legal_moves_eq intro!: image_eqI[where x = "nat cell"])

lemma legal_moves_sorted: "sorted_wrt (<) (fst (find_legal_moves m))"
  unfolding find_legal_moves_eq
  by (intro sorted_wrt_filter) (simp add: sorted_wrt_map sorted_wrt_iff_nth_less)

lemma length_zero_indices:
  "length [j \<leftarrow> map int [0..<length cs]. cs ! nat j = 0] = length [c \<leftarrow> cs. c = (0::int)]"
proof -
  have "[c \<leftarrow> map (\<lambda>k. cs ! k) [0..<length cs]. c = 0]
          = map (\<lambda>k. cs ! k) [k \<leftarrow> [0..<length cs]. cs ! k = 0]"
    by (simp add: filter_map comp_def)
  then have a: "length [c \<leftarrow> cs. c = 0] = length [k \<leftarrow> [0..<length cs]. cs ! k = 0]"
    by (simp add: map_nth)
  have "[j \<leftarrow> map int [0..<length cs]. cs ! nat j = 0]
          = map int [k \<leftarrow> [0..<length cs]. cs ! k = 0]"
    by (simp add: filter_map comp_def)
  then show ?thesis using a by simp
qed

lemma length_legal_moves: "length (fst (find_legal_moves m)) = empties m"
  unfolding find_legal_moves_eq empties_def by (rule length_zero_indices)

lemma empties_plus_occupied:
  "empties m + length [c \<leftarrow> cells (board m). c \<noteq> 0] = length (cells (board m))"
  using sum_length_filter_compl[of "\<lambda>c. c = 0" "cells (board m)"] by (simp add: empties_def)


text \<open>
  C5: for a board of size \<open>n\<close> (a board of \<open>n * n\<close> cells), \<open>find_legal_moves\<close>
  returns exactly the indices of the cells equal to 0, in strictly ascending order; the
  length of the result is \<open>n * n\<close> minus the number of nonzero cells; the manager is
  left as it was.
\<close>

theorem find_legal_moves_correct:
  assumes "int (length (cells (board m))) = size_b (board m) * size_b (board m)"
  shows "fst (find_legal_moves m)
           = [i \<leftarrow> map int [0..<length (cells (board m))]. cells (board m) ! nat i = 0]
         \<and> (\<forall>i. i \<in> set (fst (find_legal_moves m))
                 \<longleftrightarrow> 0 \<le> i \<and> i < size_b (board m) * size_b (board m)
                     \<and> getitem (cells (board m)) i = Inr 0)
         \<and> sorted_wrt (<) (fst (find_legal_moves m))
         \<and> int (length (fst (find_legal_moves m)))
             = size_b (board m) * size_b (board m)
               - int (length [c \<leftarrow> cells (board m). c \<noteq> 0])
         \<and> snd (find_legal_moves m) = m"
proof -
  have a: "\<forall>i. i \<in> set (fst (find_legal_moves m))
                 \<longleftrightarrow> 0 \<le> i \<and> i < size_b (board m) * size_b (board m)
                     \<and> getitem (cells (board m)) i = Inr 0"
    using assms by (auto simp: legal_move_iff getitem_in_range)
  have b: "int (length (fst (find_legal_moves m)))
             = size_b (board m) * size_b (board m)
               - int (length [c \<leftarrow> cells (board m). c \<noteq> 0])"
    using empties_plus_occupied[of m] assms by (simp add: length_legal_moves)
  have c: "snd (find_legal_moves m) = m"
    by (simp add: find_legal_moves_def)
  show ?thesis
    using a b c find_legal_moves_eq[of m] legal_moves_sorted[of m] by blast
qed

theorem find_legal_moves_correct_witness:
  "int (length (cells (board \<lparr>board = \<lparr>size_b = 2, cells = [1, 0, - 1, 0]\<rparr>,
       crosses = [0], noughts = [2], turn = 1, pieces_to_win = 2\<rparr>))) = 2 * 2
   \<and> fst (find_legal_moves \<lparr>board = \<lparr>size_b = 2, cells = [1, 0, - 1, 0]\<rparr>,
       crosses = [0], noughts = [2], turn = 1, pieces_to_win = 2\<rparr>) = [1, 3]
   \<and> int (length (fst (find_legal_moves \<lparr>board = \<lparr>size_b = 2, cells = [1, 0, - 1, 0]\<rparr>,
       crosses = [0], noughts = [2], turn = 1, pieces_to_win = 2\<rparr>))) = 2 * 2 - 2"
  using find_legal_moves_correct[of "\<lparr>board = \<lparr>size_b = 2, cells = [1, 0, - 1, 0]\<rparr>,
       crosses = [0], noughts = [2], turn = 1, pieces_to_win = 2\<rparr>"]
  by (simp add: find_legal_moves_def)

section \<open>Construction and reset\<close>

text \<open>
  C9, as the claim states it, fails: a manager for a board of size 3 with
  \<open>pieces_to_win = 5\<close> is constructed, and 5 is stored.
\<close>

theorem manager_init_accepts_win_length_above_size:
  "manager_init (Board_init 3) (Some 5)
     = Inr \<lparr>board = Board_init 3, crosses = [], noughts = [], turn = 1, pieces_to_win = 5\<rparr>"
  by (simp add: manager_init_def)

text \<open>
  C9, amended: constructing a manager from a board never fails and validates nothing. A
  win length that is absent or 0 is replaced by the size of the board; any other value,
  in \<open>[1, size]\<close> or not, is stored as it is.
\<close>

theorem manager_init_never_fails:
  "manager_init b ptw
     = Inr \<lparr>board = b, crosses = [], noughts = [], turn = 1,
            pieces_to_win = (if ptw = None \<or> ptw = Some 0 then size_b b else the ptw)\<rparr>"
  by (cases ptw) (simp_all add: manager_init_def)

lemma reset_board_effect:
  "cells (board (reset_board m)) = replicate (nat (size_b (board m) * size_b (board m))) 0"
  "size_b (board (reset_board m)) = size_b (board m)"
  "crosses (reset_board m) = crosses m"
  "noughts (reset_board m) = noughts m"
  "turn (reset_board m) = turn m"
  "pieces_to_win (reset_board m) = pieces_to_win m"
  by (simp_all add: reset_board_def create_board_def)

text \<open>
  C2: after \<open>reset_board\<close> the board is all zeros, both history lists are empty and
  the turn is 1. The code resets the board only: after one move on a 3x3 board and
  \<open>reset_board\<close>, \<open>crosses\<close> is still \<open>[0]\<close> and the turn is still -1.
\<close>

theorem reset_board_keeps_history_and_turn:
  "(case manager_init (Board_init 3) None of
      Inr m \<Rightarrow> (case make_move 0 m of Inr m1 \<Rightarrow> reset_board m1))
     = \<lparr>board = \<lparr>size_b = 3, cells = [0, 0, 0, 0, 0, 0, 0, 0, 0]\<rparr>,
        crosses = [0], noughts = [], turn = - 1, pieces_to_win = 3\<rparr>"
  by (simp add: manager_init_def Board_init_def make_move_def setitem_def py_index_def
      reset_board_def create_board_def eval_nat_numeral)

section \<open>Making and taking back a move\<close>

lemma remove1_append_new: "c \<notin> set xs \<Longrightarrow> remove1 c (xs @ [c]) = xs"
  by (induction xs) auto

text \<open>
  Where the legal cell is in neither history list, as in every state in which the lists
  agree with the board, \<open>unmake_move\<close> after \<open>make_move\<close> gives the state back.
\<close>

lemma make_unmake_roundtrip:
  assumes legal: "cell \<in> set (fst (find_legal_moves m))"
    and t: "turn m = 1 \<or> turn m = - 1"
    and fresh: "cell \<notin> set (crosses m)" "cell \<notin> set (noughts m)"
  shows "\<exists>m1. make_move cell m = Inr m1 \<and> unmake_move cell m1 = Inr m"
proof -
  from legal have r: "0 \<le> cell" "cell < int (length (cells (board m)))"
    and z: "cells (board m) ! nat cell = 0"
    by (simp_all add: legal_move_iff)
  have upd: "(cells (board m))[nat cell := v, nat cell := 0] = cells (board m)" for v
    using z list_update_id[of "cells (board m)" "nat cell"] by simp
  from t show ?thesis
  proof
    assume "turn m = 1"
    then show ?thesis
      using r fresh upd
      by (simp add: make_move_def unmake_move_def setitem_in_range list_remove_def
          remove1_append_new)
  next
    assume "turn m = - 1"
    then show ?thesis
      using r fresh upd
      by (simp add: make_move_def unmake_move_def setitem_in_range list_remove_def
          remove1_append_new)
  qed
qed

text \<open>
  The state after the moves 0, 1, 4, 2 on a 3x3 board and \<open>reset_board\<close>: the board is
  empty, the history lists are as the moves left them.
\<close>

lemma state_after_reset_reachable:
  "reachable \<lparr>board = \<lparr>size_b = 3, cells = [0, 0, 0, 0, 0, 0, 0, 0, 0]\<rparr>,
       crosses = [0, 4], noughts = [1, 2], turn = 1, pieces_to_win = 3\<rparr>"
proof -
  let ?m0 = "\<lparr>board = Board_init 3, crosses = [], noughts = [], turn = 1, pieces_to_win = 3\<rparr>"
  let ?m1 = "\<lparr>board = \<lparr>size_b = 3, cells = [1, 0, 0, 0, 0, 0, 0, 0, 0]\<rparr>,
       crosses = [0], noughts = [], turn = - 1, pieces_to_win = 3\<rparr>"
  let ?m2 = "\<lparr>board = \<lparr>size_b = 3, cells = [1, - 1, 0, 0, 0, 0, 0, 0, 0]\<rparr>,
       crosses = [0], noughts = [1], turn = 1, pieces_to_win = 3\<rparr>"
  let ?m3 = "\<lparr>board = \<lparr>size_b = 3, cells = [1, - 1, 0, 0, 1, 0, 0, 0, 0]\<rparr>,
       crosses = [0, 4], noughts = [1], turn = - 1, pieces_to_win = 3\<rparr>"
  let ?m4 = "\<lparr>board = \<lparr>size_b = 3, cells = [1, - 1, - 1, 0, 1, 0, 0, 0, 0]\<rparr>,
       crosses = [0, 4], noughts = [1, 2], turn = 1, pieces_to_win = 3\<rparr>"
  have "manager_init (Board_init 3) None = Inr ?m0"
    by (simp add: manager_init_def Board_init_def)
  then have r0: "reach ?m0 []"
    by (intro reach_init[of 3]) simp_all
  have "0 \<in> set (fst (find_legal_moves ?m0))" "make_move 0 ?m0 = Inr ?m1" by code_simp+
  with r0 have r1: "reach ?m1 [0]" by (rule reach_make)
  have "1 \<in> set (fst (find_legal_moves ?m1))" "make_move 1 ?m1 = Inr ?m2" by code_simp+
  with r1 have r2: "reach ?m2 [1, 0]" by (rule reach_make)
  have "4 \<in> set (fst (find_legal_moves ?m2))" "make_move 4 ?m2 = Inr ?m3" by code_simp+
  with r2 have r3: "reach ?m3 [4, 1, 0]" by (rule reach_make)
  have "2 \<in> set (fst (find_legal_moves ?m3))" "make_move 2 ?m3 = Inr ?m4" by code_simp+
  with r3 have "reach ?m4 [2, 4, 1, 0]" by (rule reach_make)
  then have "reach (reset_board ?m4) []" by (rule reach_reset)
  moreover have "reset_board ?m4 = \<lparr>board = \<lparr>size_b = 3, cells = [0, 0, 0, 0, 0, 0, 0, 0, 0]\<rparr>,
       crosses = [0, 4], noughts = [1, 2], turn = 1, pieces_to_win = 3\<rparr>"
    by (simp add: reset_board_def create_board_def eval_nat_numeral)
  ultimately show ?thesis
    by (auto simp: reachable_def)
qed

text \<open>
  C1: in every reachable state, \<open>make_move\<close> then \<open>unmake_move\<close> of an empty cell
  restores the board, the turn and both history lists. In the reachable state above cell 0
  is empty and \<open>crosses\<close> is \<open>[0, 4]\<close>; after \<open>make_move(0)\<close> and
  \<open>unmake_move(0)\<close> the board and the turn are as before and \<open>crosses\<close> is
  \<open>[4, 0]\<close>, since \<open>remove\<close> deletes the first 0.
\<close>

theorem make_unmake_after_reset:
  "reachable \<lparr>board = \<lparr>size_b = 3, cells = [0, 0, 0, 0, 0, 0, 0, 0, 0]\<rparr>,
       crosses = [0, 4], noughts = [1, 2], turn = 1, pieces_to_win = 3\<rparr>
   \<and> fst (find_legal_moves \<lparr>board = \<lparr>size_b = 3, cells = [0, 0, 0, 0, 0, 0, 0, 0, 0]\<rparr>,
       crosses = [0, 4], noughts = [1, 2], turn = 1, pieces_to_win = 3\<rparr>) = [0, 1, 2, 3, 4, 5, 6, 7, 8]
   \<and> (case make_move 0 \<lparr>board = \<lparr>size_b = 3, cells = [0, 0, 0, 0, 0, 0, 0, 0, 0]\<rparr>,
       crosses = [0, 4], noughts = [1, 2], turn = 1, pieces_to_win = 3\<rparr> of
         Inr m1 \<Rightarrow> unmake_move 0 m1)
       = Inr \<lparr>board = \<lparr>size_b = 3, cells = [0, 0, 0, 0, 0, 0, 0, 0, 0]\<rparr>,
       crosses = [4, 0], noughts = [1, 2], turn = 1, pieces_to_win = 3\<rparr>"
  using state_after_reset_reachable
  by (simp add: make_move_def setitem_def py_index_def unmake_move_def list_remove_def
      find_legal_moves_def)

section \<open>Aliasing of the default board\<close>

text \<open>
  Managers on different board objects do not interfere: a move through one leaves the
  other as it was. A board made by \<open>Board_new\<close> is at an address of its own.
\<close>

lemma obj_make_move_frame:
  assumes "obj_make_move cell a h = Inr (a', h')" and "board_ref a \<noteq> board_ref b"
  shows "load h' b = load h b"
  using assms
  by (auto simp: obj_make_move_def store_def load_def split: sum.splits)

lemma Board_new_fresh:
  assumes "Board_new n h = (a, h')"
  shows "a = length h" and "h' ! a = Board_init n" and "\<forall>k < length h. h' ! k = h ! k"
  using assms by (auto simp: Board_new_def nth_append)

text \<open>
  C10: a move made through one manager leaves the board, the legal moves and the history
  lists of any other manager unchanged. Two managers constructed with the default board
  hold the same board object: after \<open>make_move(0)\<close> through the first, cell 0 of the
  second's board is 1 and its legal moves no longer contain 0. Its history lists stay
  empty.
\<close>

theorem default_board_is_shared:
  "(case TicTacToeManager_new None None module_heap of
      Inr (a, h1) \<Rightarrow>
        (case TicTacToeManager_new None None h1 of
           Inr (b, h2) \<Rightarrow>
             (case obj_make_move 0 a h2 of
                Inr (a', h3) \<Rightarrow>
                  (cells (board (load h2 b)), fst (find_legal_moves (load h2 b)),
                   cells (board (load h3 b)), fst (find_legal_moves (load h3 b)),
                   crosses (load h3 b), noughts (load h3 b)))))
     = ([0, 0, 0, 0, 0, 0, 0, 0, 0], [0, 1, 2, 3, 4, 5, 6, 7, 8],
        [1, 0, 0, 0, 0, 0, 0, 0, 0], [1, 2, 3, 4, 5, 6, 7, 8], [], [])"
  by (simp add: TicTacToeManager_new_def module_heap_def default_board_def manager_init_def
      store_def load_def obj_make_move_def Board_init_def make_move_def setitem_def
      py_index_def eval_nat_numeral find_legal_moves_def)


section \<open>The direction walk of the win check\<close>

lemma grid_index_eq_pos:
  "grid_index b cell d i = cell + (fst d + snd d * size_b b) * i"
proof -
  have "cell = cell div size_b b * size_b b + cell mod size_b b"
    by simp
  then have "cell + (fst d + snd d * size_b b) * i
      = (cell div size_b b * size_b b + cell mod size_b b) + (fst d + snd d * size_b b) * i"
    by simp
  also have "\<dots> = (cell div size_b b + i * snd d) * size_b b + (cell mod size_b b + i * fst d)"
    by (simp add: algebra_simps)
  finally show ?thesis
    by (simp add: grid_index_def step_x_def step_y_def)
qed

lemma on_grid_coords:
  assumes "0 < size_b b" "on_grid b cell d i"
  shows "grid_index b cell d i mod size_b b = step_x b cell d i"
    and "grid_index b cell d i div size_b b = step_y b cell d i"
    and "0 \<le> grid_index b cell d i"
    and "grid_index b cell d i < size_b b * size_b b"
proof -
  let ?n = "size_b b" and ?x = "step_x b cell d i" and ?y = "step_y b cell d i"
  from assms have x: "0 \<le> ?x" "?x < ?n" and y: "0 \<le> ?y" "?y < ?n"
    by (simp_all add: on_grid_def)
  show "grid_index b cell d i mod ?n = ?x"
    using x by (simp add: grid_index_def)
  show "grid_index b cell d i div ?n = ?y"
    using x assms(1) by (simp add: grid_index_def)
  show "0 \<le> grid_index b cell d i"
    using x y assms(1) by (simp add: grid_index_def)
  have "?y * ?n \<le> (?n - 1) * ?n"
    using y assms(1) by (intro mult_right_mono) simp_all
  then show "grid_index b cell d i < ?n * ?n"
    using x by (simp add: grid_index_def algebra_simps)
qed

lemma div_less_square:
  assumes "0 < (n::int)" "c < n * n"
  shows "c div n < n"
proof (rule ccontr)
  assume "\<not> c div n < n"
  then have "n * n \<le> (c div n) * n"
    using assms(1) by (intro mult_right_mono) simp_all
  moreover have "(c div n) * n + c mod n = c"
    by simp
  moreover have "0 \<le> c mod n"
    using assms(1) by simp
  ultimately show False
    using assms(2) by linarith
qed

lemma on_grid_0:
  assumes "0 < size_b b" "0 \<le> cell" "cell < size_b b * size_b b"
  shows "on_grid b cell d 0"
proof -
  have "cell div size_b b < size_b b"
    using assms by (simp add: div_less_square)
  moreover have "0 \<le> cell div size_b b"
    using assms by (simp add: pos_imp_zdiv_nonneg_iff)
  ultimately show ?thesis
    using assms by (simp add: on_grid_def step_x_def step_y_def)
qed

lemma check_borders_step:
  assumes "0 < size_b b" "on_grid b cell d (i - 1)"
  shows "check_borders b (grid_index b cell d (i - 1)) d = Inr (on_grid b cell d i)"
proof -
  have "step_x b cell d (i - 1) + fst d = step_x b cell d i"
    "step_y b cell d (i - 1) + snd d = step_y b cell d i"
    by (simp_all add: step_x_def step_y_def algebra_simps)
  then show ?thesis
    using assms on_grid_coords(1,2)[OF assms]
    by (simp add: check_borders_def on_grid_def)
qed


lemma direction_walk_char:
  assumes n: "0 < size_b b" and len: "int (length (cells b)) = size_b b * size_b b"
  shows "on_grid b cell d (i0 - 1) \<Longrightarrow>
    \<exists>j r. direction_walk b cell content d (grid_index b cell d (i0 - 1)) [i0..k - 1]
              = (map (grid_index b cell d) [i0..j], Inr r)
          \<and> i0 - 1 \<le> j \<and> j \<le> max (i0 - 1) (k - 1)
          \<and> (\<forall>i \<in> set [i0..j]. on_grid b cell d i)
          \<and> (r \<longleftrightarrow> (\<forall>i \<in> set [i0..k - 1].
                  on_grid b cell d i \<and> cells b ! nat (grid_index b cell d i) = content))"
proof (induction "nat (k - i0)" arbitrary: i0)
  case 0
  then have "[i0..k - 1] = []" by simp
  then show ?case
    by (intro exI[of _ "i0 - 1"] exI[of _ True]) simp
next
  case (Suc q)
  then have le: "i0 \<le> k - 1" by linarith
  then have l: "[i0..k - 1] = i0 # [i0 + 1..k - 1]"
    by (simp add: upto_rec1)
  have cb: "check_borders b (grid_index b cell d (i0 - 1)) d = Inr (on_grid b cell d i0)"
    using check_borders_step[OF n Suc.prems] .
  have nc: "cell + (fst d + snd d * size_b b) * i0 = grid_index b cell d i0"
    by (simp add: grid_index_eq_pos)
  show ?case
  proof (cases "on_grid b cell d i0")
    case False
    then show ?thesis
      using le by (intro exI[of _ "i0 - 1"] exI[of _ False]) (simp add: l cb)
  next
    case True
    have g: "getitem (cells b) (grid_index b cell d i0)
               = Inr (cells b ! nat (grid_index b cell d i0))"
      using on_grid_coords(3,4)[OF n True] len by (simp add: getitem_in_range)
    show ?thesis
    proof (cases "cells b ! nat (grid_index b cell d i0) = content")
      case False
      then show ?thesis
        using le True
        by (intro exI[of _ i0] exI[of _ False]) (simp add: l cb nc g)
    next
      case same: True
      have q: "q = nat (k - (i0 + 1))" using Suc.hyps(2) by linarith
      have p: "on_grid b cell d (i0 + 1 - 1)" using True by simp
      from Suc.hyps(1)[OF q p] obtain j r where
        w: "direction_walk b cell content d (grid_index b cell d i0) [i0 + 1..k - 1]
              = (map (grid_index b cell d) [i0 + 1..j], Inr r)"
        and j: "i0 \<le> j" "j \<le> max i0 (k - 1)"
        and og: "\<forall>i \<in> set [i0 + 1..j]. on_grid b cell d i"
        and r: "r \<longleftrightarrow> (\<forall>i \<in> set [i0 + 1..k - 1].
                  on_grid b cell d i \<and> cells b ! nat (grid_index b cell d i) = content)"
        by auto
      have lj: "[i0..j] = i0 # [i0 + 1..j]"
        using j(1) by (simp add: upto_rec1)
      show ?thesis
        using le True same j og r
        by (intro exI[of _ j] exI[of _ r]) (simp add: l lj cb nc g w)
    qed
  qed
qed


lemma grid_index_0: "grid_index b cell d 0 = cell"
  by (simp add: grid_index_eq_pos)

lemma direction_walk_from_cell:
  assumes n: "0 < size_b b" and len: "int (length (cells b)) = size_b b * size_b b"
    and c: "0 \<le> cell" "cell < size_b b * size_b b"
  shows "\<exists>j r. direction_walk b cell content d cell [1..k - 1]
              = (map (grid_index b cell d) [1..j], Inr r)
          \<and> 0 \<le> j
          \<and> (\<forall>i \<in> set [1..j]. on_grid b cell d i)
          \<and> (r \<longleftrightarrow> (\<forall>i \<in> set [1..k - 1].
                  on_grid b cell d i \<and> cells b ! nat (grid_index b cell d i) = content))"
proof -
  have "on_grid b cell d (1 - 1)"
    using on_grid_0[OF n c] by simp
  from direction_walk_char[OF n len this, of content k] show ?thesis
    by (auto simp: grid_index_0)
qed

lemma line_from_walk:
  assumes n: "0 < size_b b" and c: "0 \<le> cell" "cell < size_b b * size_b b"
  shows "line_from b k (cells b ! nat cell) cell d
     \<longleftrightarrow> (\<forall>i \<in> set [1..k - 1].
            on_grid b cell d i \<and> cells b ! nat (grid_index b cell d i) = cells b ! nat cell)"
proof (cases "1 \<le> k")
  case True
  then have "[0..k - 1] = 0 # [1..k - 1]"
    by (simp add: upto_rec1)
  then show ?thesis
    using on_grid_0[OF n c, of d] by (simp add: line_from_def grid_index_0)
next
  case False
  then show ?thesis by (simp add: line_from_def)
qed

lemma directions_loop_char:
  assumes n: "0 < size_b b" and len: "int (length (cells b)) = size_b b * size_b b"
    and c: "0 \<le> cell" "cell < size_b b * size_b b"
  shows "directions_loop b k cell (cells b ! nat cell) ds
           = Inr (if \<exists>d \<in> set ds. line_from b k (cells b ! nat cell) cell d then 1 else 0)"
proof (induction ds)
  case Nil
  then show ?case by simp
next
  case (Cons d ds)
  from direction_walk_from_cell[OF n len c, of "cells b ! nat cell" d k]
  obtain j r where
    w: "direction_walk b cell (cells b ! nat cell) d cell [1..k - 1]
          = (map (grid_index b cell d) [1..j], Inr r)"
    and r: "r \<longleftrightarrow> (\<forall>i \<in> set [1..k - 1].
              on_grid b cell d i \<and> cells b ! nat (grid_index b cell d i) = cells b ! nat cell)"
    by blast
  have "r \<longleftrightarrow> line_from b k (cells b ! nat cell) cell d"
    using r line_from_walk[OF n c] by simp
  then show ?case
    using Cons.IH by (cases r) (simp_all add: w)
qed

lemma check_win_at_cell_char:
  assumes n: "0 < size_b (board m)"
    and len: "int (length (cells (board m))) = size_b (board m) * size_b (board m)"
    and c: "0 \<le> cell" "cell < size_b (board m) * size_b (board m)"
  shows "check_win_at_cell m cell
           = Inr (if cell_wins (board m) (pieces_to_win m) cell then 1 else 0)"
  using c len directions_loop_char[OF n len c]
  by (simp add: check_win_at_cell_def getitem_in_range cell_wins_def)

lemma check_win_loop_char:
  assumes n: "0 < size_b (board m)"
    and len: "int (length (cells (board m))) = size_b (board m) * size_b (board m)"
  shows "(\<forall>c \<in> set cs. 0 \<le> c \<and> c < size_b (board m) * size_b (board m)) \<Longrightarrow>
    check_win_loop m cs
      = Inr (if \<exists>c \<in> set cs. cell_wins (board m) (pieces_to_win m) c then 1 else 0)"
proof (induction cs)
  case Nil
  then show ?case by simp
next
  case (Cons c cs)
  then show ?case
    using check_win_at_cell_char[OF n len, of c] by simp
qed

lemma check_win_char:
  assumes "well_formed m"
  shows "check_win m
     = Inr (if \<exists>c \<in> set (if turn m = - 1 then crosses m else noughts m).
                 cell_wins (board m) (pieces_to_win m) c then 1 else 0)"
proof -
  from assms have n: "0 < size_b (board m)"
    and len: "int (length (cells (board m))) = size_b (board m) * size_b (board m)"
    and r: "\<forall>c \<in> set (if turn m = - 1 then crosses m else noughts m).
              0 \<le> c \<and> c < size_b (board m) * size_b (board m)"
    by (auto simp: well_formed_def Let_def)
  show ?thesis
    unfolding check_win_def using check_win_loop_char[OF n len r] .
qed

text \<open>
  C4: on a board of \<open>size * size\<close> cells and from a cell of the board, in any direction
  (the eight of \<open>check_win_at_cell\<close> among them) and for any win length, the walk raises
  nothing; its \<open>j\<close>-th read of the board is at the index of the cell \<open>j\<close> steps away by
  column and row, that cell is on the grid and the index is in \<open>[0, size * size)\<close>; and
  the walk reports a full line only if every one of the \<open>k - 1\<close> steps stays on the grid.
\<close>

theorem direction_walk_stays_on_grid:
  assumes "0 < size_b b" and "int (length (cells b)) = size_b b * size_b b"
    and "0 \<le> cell" and "cell < size_b b * size_b b"
  shows "\<exists>reads r. direction_walk b cell content direction cell [1..k - 1] = (reads, Inr r)
     \<and> (\<forall>j < length reads.
           on_grid b cell direction (int j + 1)
         \<and> reads ! j = grid_index b cell direction (int j + 1)
         \<and> 0 \<le> reads ! j \<and> reads ! j < size_b b * size_b b)
     \<and> (r \<longrightarrow> (\<forall>i \<in> set [1..k - 1]. on_grid b cell direction i))"
proof -
  from direction_walk_from_cell[OF assms, of content direction k]
  obtain j r where
    w: "direction_walk b cell content direction cell [1..k - 1]
          = (map (grid_index b cell direction) [1..j], Inr r)"
    and j: "0 \<le> j"
    and og: "\<forall>i \<in> set [1..j]. on_grid b cell direction i"
    and r: "r \<longleftrightarrow> (\<forall>i \<in> set [1..k - 1].
              on_grid b cell direction i
            \<and> cells b ! nat (grid_index b cell direction i) = content)"
    by blast
  have "on_grid b cell direction (int q + 1)
         \<and> map (grid_index b cell direction) [1..j] ! q = grid_index b cell direction (int q + 1)
         \<and> 0 \<le> map (grid_index b cell direction) [1..j] ! q
         \<and> map (grid_index b cell direction) [1..j] ! q < size_b b * size_b b"
    if "q < length (map (grid_index b cell direction) [1..j])" for q
  proof -
    from that have q: "int q + 1 \<le> j" by simp
    then have e: "[1..j] ! q = int q + 1"
      by (simp add: nth_upto)
    have o: "on_grid b cell direction (int q + 1)"
      using og q by simp
    show ?thesis
      using that e o on_grid_coords(3,4)[OF assms(1) o] by (simp add: add.commute)
  qed
  then show ?thesis
    using w r by (intro exI[of _ "map (grid_index b cell direction) [1..j]"] exI[of _ r]) blast
qed

theorem direction_walk_stays_on_grid_witness:
  "0 < size_b \<lparr>size_b = 3, cells = [0, 1, 1, 1, 0, 0, 0, 0, 0]\<rparr>
   \<and> int (length (cells \<lparr>size_b = 3, cells = [0, 1, 1, 1, 0, 0, 0, 0, 0]\<rparr>)) = 3 * 3
   \<and> (0::int) \<le> 1 \<and> (1::int) < 3 * 3
   \<and> direction_walk \<lparr>size_b = 3, cells = [0, 1, 1, 1, 0, 0, 0, 0, 0]\<rparr> 1 1 (1, 0) 1 [1..3 - 1]
       = ([2], Inr False)
   \<and> on_grid \<lparr>size_b = 3, cells = [0, 1, 1, 1, 0, 0, 0, 0, 0]\<rparr> 1 (1, 0) 1
   \<and> \<not> on_grid \<lparr>size_b = 3, cells = [0, 1, 1, 1, 0, 0, 0, 0, 0]\<rparr> 1 (1, 0) 2"
proof -
  let ?b = "\<lparr>size_b = 3, cells = [0, 1, 1, 1, 0, 0, 0, 0, 0]\<rparr>"
  have w: "direction_walk ?b 1 1 (1, 0) 1 [1..3 - 1] = ([2], Inr False)"
    by code_simp
  have h: "0 < size_b ?b" "int (length (cells ?b)) = size_b ?b * size_b ?b"
    "(0::int) \<le> 1" "1 < size_b ?b * size_b ?b"
    by simp_all
  from direction_walk_stays_on_grid[OF h, of 1 "(1, 0)" 3] w
  have "on_grid ?b 1 (1, 0) 1" by auto
  moreover have "\<not> on_grid ?b 1 (1, 0) 2" by code_simp
  ultimately show ?thesis using w by simp
qed

section \<open>The win check\<close>

lemma consistent_marks:
  assumes "consistent m"
  shows "well_formed m"
    and "c \<in> set (if turn m = - 1 then crosses m else noughts m)
           \<Longrightarrow> cells (board m) ! nat c = just_moved m"
    and "placed m (just_moved m) = (if turn m = - 1 then crosses m else noughts m)"
proof -
  from assms show wf: "well_formed m"
    by (simp add: consistent_def Let_def)
  then have t: "turn m = 1 \<or> turn m = - 1"
    by (simp add: well_formed_def Let_def)
  then show "placed m (just_moved m) = (if turn m = - 1 then crosses m else noughts m)"
    by (auto simp: placed_def just_moved_def)
  assume c: "c \<in> set (if turn m = - 1 then crosses m else noughts m)"
  with wf have "0 \<le> c" "c < size_b (board m) * size_b (board m)"
    by (auto simp: well_formed_def Let_def split: if_splits)
  then have "c \<in> set [0..size_b (board m) * size_b (board m) - 1]"
    by simp
  with assms have
    "(cells (board m) ! nat c = 1 \<longleftrightarrow> c \<in> set (crosses m))
     \<and> (cells (board m) ! nat c = - 1 \<longleftrightarrow> c \<in> set (noughts m))"
    unfolding consistent_def Let_def by blast
  with c t show "cells (board m) ! nat c = just_moved m"
    by (auto simp: just_moved_def split: if_splits)
qed

text \<open>
  C3: in a state whose history lists agree with the board, \<open>check_win\<close> raises nothing and
  returns a nonzero value exactly when some cell placed by the side that moved last starts,
  in one of the eight directions, \<open>pieces_to_win\<close> consecutive cells of that side's mark on
  the grid, and 0 otherwise. On a 3x3 board with win length 3, after the moves 0, 1, 4, 2, 8
  it returns 1.
\<close>

theorem check_win_correct:
  "(consistent m \<longrightarrow>
      (\<exists>w. check_win m = Inr w \<and> (w \<noteq> 0 \<longleftrightarrow> has_win m) \<and> (w = 0 \<longleftrightarrow> \<not> has_win m)))
   \<and> (case manager_init (Board_init 3) (Some 3) of
         Inr m0 \<Rightarrow> (case play [0, 1, 4, 2, 8] m0 of Inr m1 \<Rightarrow> check_win m1)) = Inr 1"
proof
  show "consistent m \<longrightarrow>
      (\<exists>w. check_win m = Inr w \<and> (w \<noteq> 0 \<longleftrightarrow> has_win m) \<and> (w = 0 \<longleftrightarrow> \<not> has_win m))"
  proof
    assume cm: "consistent m"
    let ?L = "if turn m = - 1 then crosses m else noughts m"
    have "has_win m \<longleftrightarrow> (\<exists>c \<in> set ?L. cell_wins (board m) (pieces_to_win m) c)"
      unfolding has_win_def cell_wins_def consistent_marks(3)[OF cm]
      using consistent_marks(2)[OF cm] by auto
    then show "\<exists>w. check_win m = Inr w \<and> (w \<noteq> 0 \<longleftrightarrow> has_win m) \<and> (w = 0 \<longleftrightarrow> \<not> has_win m)"
      using check_win_char[OF consistent_marks(1)[OF cm]] by simp
  qed
  show "(case manager_init (Board_init 3) (Some 3) of
         Inr m0 \<Rightarrow> (case play [0, 1, 4, 2, 8] m0 of Inr m1 \<Rightarrow> check_win m1)) = Inr 1"
    by code_simp
qed

theorem check_win_correct_witness:
  "consistent \<lparr>board = \<lparr>size_b = 3, cells = [1, - 1, - 1, 0, 1, 0, 0, 0, 1]\<rparr>,
       crosses = [0, 4, 8], noughts = [1, 2], turn = - 1, pieces_to_win = 3\<rparr>
   \<and> check_win \<lparr>board = \<lparr>size_b = 3, cells = [1, - 1, - 1, 0, 1, 0, 0, 0, 1]\<rparr>,
       crosses = [0, 4, 8], noughts = [1, 2], turn = - 1, pieces_to_win = 3\<rparr> = Inr 1
   \<and> has_win \<lparr>board = \<lparr>size_b = 3, cells = [1, - 1, - 1, 0, 1, 0, 0, 0, 1]\<rparr>,
       crosses = [0, 4, 8], noughts = [1, 2], turn = - 1, pieces_to_win = 3\<rparr>"
proof -
  let ?m = "\<lparr>board = \<lparr>size_b = 3, cells = [1, - 1, - 1, 0, 1, 0, 0, 0, 1]\<rparr>,
       crosses = [0, 4, 8], noughts = [1, 2], turn = - 1, pieces_to_win = 3\<rparr>"
  have c: "consistent ?m" by code_simp
  have w: "check_win ?m = Inr 1" by code_simp
  from check_win_correct[of ?m] c w show ?thesis by simp
qed

section \<open>The order of the search values\<close>

lemma neg_neg: "neg (neg a) = a"
  by (cases a) simp_all

lemma neg_less_iff: "neg a < neg b \<longleftrightarrow> b < a"
  by (cases a; cases b) (simp_all add: less_ext_def)

lemma neg_le_iff: "neg a \<le> neg b \<longleftrightarrow> b \<le> a"
  by (cases a; cases b) (auto simp: less_eq_ext_def)

lemma Fin_less_iff: "Fin a < Fin b \<longleftrightarrow> a < b"
  by (simp add: less_ext_def)

lemma Fin_le_iff: "Fin a \<le> Fin b \<longleftrightarrow> a \<le> b"
  by (auto simp: less_eq_ext_def)

lemma MInf_least: "MInf \<le> a"
  by (cases a) (simp_all add: less_eq_ext_def)

lemma PInf_greatest: "a \<le> PInf"
  by (cases a) (simp_all add: less_eq_ext_def)

lemma inf_less_Fin: "MInf < Fin a" "Fin a < PInf" "MInf < PInf"
  by (simp_all add: less_ext_def)

lemma max_Fin: "max (Fin a) (Fin b) = Fin (max a b)"
  by (simp add: max_def Fin_le_iff)

lemma ext_less_iff: "ext_less a b \<longleftrightarrow> a < b"
  by (simp add: less_ext_def)

lemma ext_ge_iff: "ext_ge a b \<longleftrightarrow> b \<le> a"
  by (simp add: ext_ge_def less_ext_def[symmetric] not_less)

lemmas ext_simps = neg_neg neg_less_iff neg_le_iff Fin_less_iff Fin_le_iff MInf_least
  PInf_greatest inf_less_Fin max_Fin ext_less_iff ext_ge_iff

section \<open>Well-formed states\<close>

lemma make_move_legal:
  assumes "cell \<in> set (fst (find_legal_moves m))"
  shows "make_move cell m =
     Inr (if turn m = 1
          then m\<lparr>crosses := crosses m @ [cell],
                 board := (board m)\<lparr>cells := (cells (board m))[nat cell := turn m]\<rparr>,
                 turn := - turn m\<rparr>
          else m\<lparr>noughts := noughts m @ [cell],
                 board := (board m)\<lparr>cells := (cells (board m))[nat cell := turn m]\<rparr>,
                 turn := - turn m\<rparr>)"
  using assms by (simp add: legal_move_iff make_move_def setitem_in_range)

lemma filter_zero_update:
  assumes "k < length xs" "xs ! k = 0" "v \<noteq> (0::int)"
  shows "Suc (length [c \<leftarrow> xs[k := v]. c = 0]) = length [c \<leftarrow> xs. c = 0]"
  using assms
proof (induction xs arbitrary: k)
  case Nil
  then show ?case by simp
next
  case (Cons x xs)
  then show ?case by (cases k) auto
qed

lemma make_move_well_formed:
  assumes wf: "well_formed m" and legal: "cell \<in> set (fst (find_legal_moves m))"
  shows "\<exists>m1. make_move cell m = Inr m1 \<and> well_formed m1 \<and> Suc (empties m1) = empties m"
proof -
  from legal have r: "0 \<le> cell" "cell < int (length (cells (board m)))"
    and z: "cells (board m) ! nat cell = 0"
    by (simp_all add: legal_move_iff)
  from wf have t: "turn m = 1 \<or> turn m = - 1" and tz: "turn m \<noteq> 0"
    by (auto simp: well_formed_def Let_def)
  have e: "Suc (length [c \<leftarrow> (cells (board m))[nat cell := turn m]. c = 0])
             = length [c \<leftarrow> cells (board m). c = 0]"
    using r z tz by (intro filter_zero_update) simp_all
  show ?thesis
    unfolding make_move_legal[OF legal]
    using wf r e by (auto simp: well_formed_def Let_def empties_def)
qed

lemma unmake_move_well_formed:
  assumes "well_formed m" "unmake_move cell m = Inr m'"
  shows "well_formed m'"
proof -
  have s: "set (remove1 cell xs) \<subseteq> set xs" for xs :: "int list"
    by (rule set_remove1_subset)
  show ?thesis
    using assms s[of "crosses m"] s[of "noughts m"]
    by (auto simp: unmake_move_def list_remove_def setitem_def well_formed_def Let_def
        split: if_splits option.splits)
qed

lemma reset_board_well_formed: "well_formed m \<Longrightarrow> well_formed (reset_board m)"
  by (simp add: well_formed_def reset_board_def create_board_def Let_def)

lemma manager_init_well_formed:
  "0 < n \<Longrightarrow> manager_init (Board_init n) ptw = Inr m \<Longrightarrow> well_formed m"
  by (auto simp: manager_init_def Board_init_def well_formed_def Let_def)

lemma reach_well_formed: "reach m undo \<Longrightarrow> well_formed m"
proof (induction rule: reach.induct)
  case (reach_init n ptw m)
  then show ?case by (rule manager_init_well_formed)
next
  case (reach_make m undo cell m')
  then show ?case using make_move_well_formed[of m cell] by auto
next
  case (reach_unmake m cell undo m')
  then show ?case by (auto intro: unmake_move_well_formed)
next
  case (reach_reset m undo)
  then show ?case by (simp add: reset_board_well_formed)
qed

lemma reachable_well_formed: "reachable m \<Longrightarrow> well_formed m"
  by (auto simp: reachable_def intro: reach_well_formed)


section \<open>States of the same position\<close>

lemma same_position_refl: "same_position m m"
  by (simp add: same_position_def)

lemma same_position_sym: "same_position m m' \<Longrightarrow> same_position m' m"
  by (simp add: same_position_def)

lemma same_position_trans:
  "same_position m m' \<Longrightarrow> same_position m' m'' \<Longrightarrow> same_position m m''"
  by (simp add: same_position_def)

lemma same_position_sets:
  assumes "same_position m m'"
  shows "set (crosses m) = set (crosses m')" "set (noughts m) = set (noughts m')"
  using assms mset_eq_setD by (auto simp: same_position_def)

lemma same_position_well_formed:
  "same_position m m' \<Longrightarrow> well_formed m \<Longrightarrow> well_formed m'"
  using same_position_sets[of m m']
  by (simp add: well_formed_def Let_def same_position_def)

lemma same_position_check_win:
  assumes "same_position m m'" "well_formed m"
  shows "check_win m' = check_win m"
proof -
  have "well_formed m'"
    using assms by (rule same_position_well_formed)
  then show ?thesis
    using assms same_position_sets[OF assms(1)]
    by (simp add: check_win_char same_position_def)
qed

lemma same_position_legal:
  "same_position m m' \<Longrightarrow> fst (find_legal_moves m') = fst (find_legal_moves m)"
  by (simp add: find_legal_moves_def same_position_def)

lemma same_position_empties: "same_position m m' \<Longrightarrow> empties m' = empties m"
  by (simp add: empties_def same_position_def)

lemma same_position_make_move:
  assumes "same_position m m'" "cell \<in> set (fst (find_legal_moves m))"
    "make_move cell m = Inr m1"
  shows "\<exists>m1'. make_move cell m' = Inr m1' \<and> same_position m1 m1'"
proof -
  have l: "cell \<in> set (fst (find_legal_moves m'))"
    using assms(1,2) by (simp add: same_position_legal)
  show ?thesis
    using assms(1,3) unfolding make_move_legal[OF l] make_move_legal[OF assms(2)]
    by (auto simp: same_position_def)
qed

lemma unmake_after_make:
  assumes wf: "well_formed m" and legal: "cell \<in> set (fst (find_legal_moves m))"
    and mk: "make_move cell m = Inr m1" and sp: "same_position m1 m2"
  shows "\<exists>m3. unmake_move cell m2 = Inr m3 \<and> same_position m m3"
proof -
  from legal have r: "0 \<le> cell" "cell < int (length (cells (board m)))"
    and z: "cells (board m) ! nat cell = 0"
    by (simp_all add: legal_move_iff)
  from wf have t: "turn m = 1 \<or> turn m = - 1"
    by (simp add: well_formed_def Let_def)
  have upd: "(cells (board m))[nat cell := v, nat cell := 0] = cells (board m)" for v
    using z list_update_id[of "cells (board m)" "nat cell"] by simp
  from t show ?thesis
  proof
    assume t1: "turn m = 1"
    with mk have m1: "m1 = m\<lparr>crosses := crosses m @ [cell],
                 board := (board m)\<lparr>cells := (cells (board m))[nat cell := 1]\<rparr>,
                 turn := - 1\<rparr>"
      unfolding make_move_legal[OF legal] by simp
    from sp m1 have b2: "board m2 = (board m)\<lparr>cells := (cells (board m))[nat cell := 1]\<rparr>"
      and t2: "turn m2 = - 1" and k2: "pieces_to_win m2 = pieces_to_win m"
      and c2: "mset (crosses m2) = mset (crosses m) + {#cell#}"
      and n2: "mset (noughts m2) = mset (noughts m)"
      by (simp_all add: same_position_def)
    from c2 have "cell \<in># mset (crosses m2)" by simp
    then have i: "cell \<in> set (crosses m2)" by simp
    have ms: "mset (remove1 cell (crosses m2)) = mset (crosses m)"
      using c2 by simp
    show ?thesis
      using i ms b2 t2 k2 n2 r upd t1
      by (simp add: unmake_move_def list_remove_def setitem_in_range same_position_def)
  next
    assume t1: "turn m = - 1"
    with mk have m1: "m1 = m\<lparr>noughts := noughts m @ [cell],
                 board := (board m)\<lparr>cells := (cells (board m))[nat cell := - 1]\<rparr>,
                 turn := 1\<rparr>"
      unfolding make_move_legal[OF legal] by simp
    from sp m1 have b2: "board m2 = (board m)\<lparr>cells := (cells (board m))[nat cell := - 1]\<rparr>"
      and t2: "turn m2 = 1" and k2: "pieces_to_win m2 = pieces_to_win m"
      and c2: "mset (noughts m2) = mset (noughts m) + {#cell#}"
      and n2: "mset (crosses m2) = mset (crosses m)"
      by (simp_all add: same_position_def)
    from c2 have "cell \<in># mset (noughts m2)" by simp
    then have i: "cell \<in> set (noughts m2)" by simp
    have ms: "mset (remove1 cell (noughts m2)) = mset (noughts m)"
      using c2 by simp
    show ?thesis
      using i ms b2 t2 k2 n2 r upd t1
      by (simp add: unmake_move_def list_remove_def setitem_in_range same_position_def)
  qed
qed


section \<open>Alpha-beta search against negamax\<close>

lemma neg_le_swap: "r \<le> neg b \<longleftrightarrow> b \<le> neg r"
  using neg_le_iff[of "neg r" b] by (simp add: neg_neg)

lemma neg_ge_swap: "neg a \<le> r \<longleftrightarrow> neg r \<le> a"
  using neg_le_iff[of a "neg r"] by (simp add: neg_neg)

lemma neg_eq_swap: "r = neg v \<longleftrightarrow> neg r = v"
  by (metis neg_neg)

lemma sound_neg: "sound (neg b) (neg a) (neg v) r \<longleftrightarrow> sound a b v (neg r)"
  using neg_le_swap[of r b] neg_ge_swap[of a r] neg_eq_swap[of r v]
  by (auto simp: sound_def neg_le_iff neg_less_iff)

lemma fold_max_ge: "(a::ext) \<le> fold max xs a"
proof (induction xs arbitrary: a)
  case Nil
  then show ?case by simp
next
  case (Cons x xs)
  have "a \<le> max x a" by simp
  also have "\<dots> \<le> fold max xs (max x a)" by (rule Cons.IH)
  finally show ?case by simp
qed

lemma fold_max_start: "fold max xs (max (a::ext) b) = max (fold max xs a) b"
proof (induction xs arbitrary: a)
  case Nil
  then show ?case by simp
next
  case (Cons x xs)
  have "max x (max a b) = max (max x a) b"
    by (simp add: max.assoc)
  then show ?case
    using Cons.IH[of "max x a"] by simp
qed

lemma search_loop_value:
  assumes wf: "well_formed m"
    and rec: "\<And>c m1 m1' a b. c \<in> set (fst (find_legal_moves m)) \<Longrightarrow> make_move c m = Inr m1
        \<Longrightarrow> same_position m1 m1' \<Longrightarrow> a < b
        \<Longrightarrow> \<exists>r m2. rec a b m1' = Inr (r, m2) \<and> same_position m1' m2 \<and> sound a b (neg (tv c)) r"
  shows "set cs \<subseteq> set (fst (find_legal_moves m)) \<Longrightarrow> same_position m mk \<Longrightarrow> a0 < beta
    \<Longrightarrow> \<exists>m'. search_loop rec cs a0 beta mk = Inr (min beta (fold max (map tv cs) a0), m')
           \<and> same_position m m'"
proof (induction cs arbitrary: a0 mk)
  case Nil
  then show ?case by simp
next
  case (Cons c cs)
  from Cons.prems(1) have legal: "c \<in> set (fst (find_legal_moves m))"
    and rest: "set cs \<subseteq> set (fst (find_legal_moves m))"
    by simp_all
  from make_move_well_formed[OF wf legal] obtain m1 where m1: "make_move c m = Inr m1"
    by blast
  from same_position_make_move[OF Cons.prems(2) legal m1] obtain m1' where
    m1': "make_move c mk = Inr m1'" and sp1: "same_position m1 m1'"
    by blast
  have w: "neg beta < neg a0"
    using Cons.prems(3) by (simp add: neg_less_iff)
  from rec[OF legal m1 sp1 w] obtain r m2 where
    r: "rec (neg beta) (neg a0) m1' = Inr (r, m2)" and sp2: "same_position m1' m2"
    and snd: "sound (neg beta) (neg a0) (neg (tv c)) r"
    by blast
  from unmake_after_make[OF wf legal m1 same_position_trans[OF sp1 sp2]] obtain m3 where
    m3: "unmake_move c m2 = Inr m3" and sp3: "same_position m m3"
    by blast
  from snd have s: "sound a0 beta (tv c) (neg r)"
    by (simp add: sound_neg)
  have step: "search_loop rec (c # cs) a0 beta mk
      = (if beta \<le> neg r then Inr (beta, m3)
         else search_loop rec cs (if a0 < neg r then neg r else a0) beta m3)"
    by (simp add: m1' r m3 ext_less_iff ext_ge_iff)
  consider (cut) "beta \<le> tv c" | (mid) "a0 < tv c" "tv c < beta" | (low) "tv c \<le> a0"
    using not_le by blast
  then show ?case
  proof cases
    case cut
    with s have "beta \<le> neg r" by (simp add: sound_def)
    moreover have "beta \<le> fold max (map tv cs) (max (tv c) a0)"
      using cut fold_max_ge[of "max (tv c) a0" "map tv cs"] by (simp add: max_def split: if_splits)
    ultimately show ?thesis
      using sp3 by (simp add: step min_def del: search_loop.simps)
  next
    case mid
    with s have e: "neg r = tv c" by (simp add: sound_def)
    have m: "max (tv c) a0 = tv c" using mid by (simp add: max.absorb1 less_imp_le)
    have nb: "\<not> beta \<le> tv c" using mid(2) by (simp add: not_le)
    from Cons.IH[OF rest sp3 mid(2)] show ?thesis
      using mid(1) nb by (simp add: step e m del: search_loop.simps)
  next
    case low
    with s have e: "neg r \<le> a0" by (simp add: sound_def)
    have m: "max (tv c) a0 = a0" using low by (simp add: max.absorb2)
    have nb: "\<not> beta \<le> neg r" "\<not> a0 < neg r"
      using e Cons.prems(3) by (auto simp: not_le not_less)
    from Cons.IH[OF rest sp3 Cons.prems(3)] show ?thesis
      using nb by (simp add: step m del: search_loop.simps)
  qed
qed

lemma negamax_loop_value:
  assumes "\<And>c. c \<in> set cs \<Longrightarrow> \<exists>m1 v. make_move c m = Inr m1 \<and> negamax f d m1 = Inr v"
  shows "negamax_loop (negamax f d) cs m best
           = Inr (fold max (map (move_value f d m) cs) best)"
  using assms
proof (induction cs arbitrary: best)
  case Nil
  then show ?case by simp
next
  case (Cons c cs)
  from Cons.prems[of c] obtain m1 v where
    m1: "make_move c m = Inr m1" and v: "negamax f d m1 = Inr v"
    by auto
  have mv: "move_value f d m c = neg v"
    by (simp add: move_value_def m1 v)
  show ?case
    using Cons.IH[of "max best (neg v)"] Cons.prems
    by (simp add: m1 v mv max.commute)
qed


lemma sound_refl: "sound a b v v"
  by (simp add: sound_def)

lemma sound_clamp: "a < b \<Longrightarrow> sound a b v (min b (max v a))"
  by (auto simp: sound_def min_def max_def)

lemma sound_full: "sound MInf PInf (Fin v) r \<Longrightarrow> r = Fin v"
  by (simp add: sound_def inf_less_Fin)

lemma fold_max_Fin:
  assumes "\<forall>x \<in> set xs. \<exists>i. x = Fin i"
    and "(\<exists>i. a = Fin i) \<or> (a = MInf \<and> xs \<noteq> [])"
  shows "\<exists>i. fold max xs a = Fin i"
  using assms
proof (induction xs arbitrary: a)
  case Nil
  then show ?case by simp
next
  case (Cons x xs)
  from Cons.prems(1) obtain i where x: "x = Fin i" by auto
  have "\<exists>j. max x a = Fin j"
    using Cons.prems(2) x by (auto simp: max_Fin max.absorb1 MInf_least)
  then show ?case
    using Cons.IH[of "max x a"] Cons.prems(1) by simp
qed

lemma find_legal_moves_pair: "find_legal_moves m = (fst (find_legal_moves m), m)"
  by (simp add: find_legal_moves_def)

lemma search_sound:
  "well_formed m \<Longrightarrow> empties m < f \<or> (0 \<le> d \<and> d < int f) \<Longrightarrow> a < b
     \<Longrightarrow> same_position m mk \<Longrightarrow>
     \<exists>v r m'. negamax f d m = Inr (Fin v) \<and> search f d a b mk = Inr (r, m')
       \<and> same_position m m' \<and> sound a b (Fin v) r"
proof (induction f arbitrary: d a b m mk)
  case 0
  then show ?case by auto
next
  case (Suc f)
  note wf = Suc.prems(1) and sp = Suc.prems(4)
  let ?L = "fst (find_legal_moves m)"
  have cw: "check_win mk = check_win m"
    using sp wf by (rule same_position_check_win)
  have lg: "find_legal_moves mk = (?L, mk)"
    using same_position_legal[OF sp] find_legal_moves_pair[of mk] by simp
  obtain w where w: "check_win m = Inr w"
    using check_win_char[OF wf] by simp
  show ?case
  proof (cases "d = 0 \<or> w \<noteq> 0 \<or> ?L = []")
    case True
    then show ?thesis
      using sp by (auto simp: cw w lg sound_refl)
  next
    case False
    then have d: "d \<noteq> 0" and w0: "w = 0" and ne: "?L \<noteq> []"
      by simp_all
    let ?tv = "move_value f (d - 1) m"
    have child: "\<exists>m1 v. make_move c m = Inr m1 \<and> negamax f (d - 1) m1 = Inr (Fin v)
        \<and> (\<forall>m1' a b. same_position m1 m1' \<longrightarrow> a < b \<longrightarrow>
              (\<exists>r m2. search f (d - 1) a b m1' = Inr (r, m2) \<and> same_position m1' m2
                 \<and> sound a b (Fin v) r))"
      if c: "c \<in> set ?L" for c
    proof -
      from make_move_well_formed[OF wf c] obtain m1 where
        m1: "make_move c m = Inr m1" and wf1: "well_formed m1"
        and e1: "Suc (empties m1) = empties m"
        by blast
      from e1 Suc.prems(2) d have e: "empties m1 < f \<or> (0 \<le> d - 1 \<and> d - 1 < int f)"
        by auto
      from Suc.IH[OF wf1 e _ same_position_refl, of MInf PInf] obtain v where
        v: "negamax f (d - 1) m1 = Inr (Fin v)"
        by (auto simp: inf_less_Fin)
      have "\<exists>r m2. search f (d - 1) a' b' m1' = Inr (r, m2) \<and> same_position m1' m2
                 \<and> sound a' b' (Fin v) r"
        if s: "same_position m1 m1'" and ab: "a' < b'" for m1' a' b'
      proof -
        from Suc.IH[OF wf1 e ab s] obtain r m2 where
          "search f (d - 1) a' b' m1' = Inr (r, m2)" "same_position m1 m2"
          "sound a' b' (Fin v) r"
          using v by auto
        then show ?thesis
          using same_position_trans[OF same_position_sym[OF s]] by blast
      qed
      then show ?thesis using m1 v by blast
    qed
    have tv: "\<exists>v. make_move c m = Inr m1 \<longrightarrow> (negamax f (d - 1) m1 = Inr (Fin v) \<and> ?tv c = Fin (- v))"
      if c: "c \<in> set ?L" for c m1
      using child[OF c] by (auto simp: move_value_def)
    have rec: "\<exists>r m2. search f (d - 1) a' b' m1' = Inr (r, m2) \<and> same_position m1' m2
                 \<and> sound a' b' (neg (?tv c)) r"
      if "c \<in> set ?L" "make_move c m = Inr m1" "same_position m1 m1'" "a' < b'"
      for c m1 m1' a' b'
      using child[OF that(1)] that(2,3,4) by (auto simp: move_value_def neg_neg)
    have "\<exists>m'. search_loop (search f (d - 1)) ?L a b mk
             = Inr (min b (fold max (map ?tv ?L) a), m') \<and> same_position m m'"
      using wf rec _ sp Suc.prems(3)
      by (rule search_loop_value[where rec = "search f (d - 1)" and tv = ?tv and cs = ?L]) simp_all
    then obtain m' where
      sl: "search_loop (search f (d - 1)) ?L a b mk
             = Inr (min b (fold max (map ?tv ?L) a), m')"
      and sp': "same_position m m'"
      by blast
    have nl: "negamax_loop (negamax f (d - 1)) ?L m MInf
               = Inr (fold max (map ?tv ?L) MInf)"
      using child by (intro negamax_loop_value) blast
    have "\<forall>x \<in> set (map ?tv ?L). \<exists>i. x = Fin i"
      using child by (fastforce simp: move_value_def)
    from fold_max_Fin[OF this] ne obtain v where
      v: "fold max (map ?tv ?L) MInf = Fin v"
      by auto
    have "fold max (map ?tv ?L) (max MInf a) = max (Fin v) a"
      using fold_max_start[of "map ?tv ?L" MInf a] v by simp
    then have fa: "fold max (map ?tv ?L) a = max (Fin v) a"
      by (simp add: max.absorb2 MInf_least)
    have "sound a b (Fin v) (min b (fold max (map ?tv ?L) a))"
      unfolding fa using Suc.prems(3) by (rule sound_clamp)
    then show ?thesis
      using d w0 ne sp' by (simp add: cw w lg sl nl v)
  qed
qed


text \<open>Two states of a game on the 3x3 board, after the moves 0, 2, 3, 6 and 0, 2, 3, 6, 4.\<close>

lemma example_states_reachable:
  "reachable \<lparr>board = \<lparr>size_b = 3, cells = [1, 0, - 1, 1, 0, 0, - 1, 0, 0]\<rparr>,
       crosses = [0, 3], noughts = [2, 6], turn = 1, pieces_to_win = 3\<rparr>"
  "reachable \<lparr>board = \<lparr>size_b = 3, cells = [1, 0, - 1, 1, 1, 0, - 1, 0, 0]\<rparr>,
       crosses = [0, 3, 4], noughts = [2, 6], turn = - 1, pieces_to_win = 3\<rparr>"
proof -
  let ?m0 = "\<lparr>board = Board_init 3, crosses = [], noughts = [], turn = 1, pieces_to_win = 3\<rparr>"
  let ?m1 = "\<lparr>board = \<lparr>size_b = 3, cells = [1, 0, 0, 0, 0, 0, 0, 0, 0]\<rparr>,
       crosses = [0], noughts = [], turn = - 1, pieces_to_win = 3\<rparr>"
  let ?m2 = "\<lparr>board = \<lparr>size_b = 3, cells = [1, 0, - 1, 0, 0, 0, 0, 0, 0]\<rparr>,
       crosses = [0], noughts = [2], turn = 1, pieces_to_win = 3\<rparr>"
  let ?m3 = "\<lparr>board = \<lparr>size_b = 3, cells = [1, 0, - 1, 1, 0, 0, 0, 0, 0]\<rparr>,
       crosses = [0, 3], noughts = [2], turn = - 1, pieces_to_win = 3\<rparr>"
  let ?m4 = "\<lparr>board = \<lparr>size_b = 3, cells = [1, 0, - 1, 1, 0, 0, - 1, 0, 0]\<rparr>,
       crosses = [0, 3], noughts = [2, 6], turn = 1, pieces_to_win = 3\<rparr>"
  let ?m5 = "\<lparr>board = \<lparr>size_b = 3, cells = [1, 0, - 1, 1, 1, 0, - 1, 0, 0]\<rparr>,
       crosses = [0, 3, 4], noughts = [2, 6], turn = - 1, pieces_to_win = 3\<rparr>"
  have "manager_init (Board_init 3) None = Inr ?m0"
    by (simp add: manager_init_def Board_init_def)
  then have r0: "reach ?m0 []"
    by (intro reach_init[of 3]) simp_all
  have "0 \<in> set (fst (find_legal_moves ?m0))" "make_move 0 ?m0 = Inr ?m1" by code_simp+
  with r0 have r1: "reach ?m1 [0]" by (rule reach_make)
  have "2 \<in> set (fst (find_legal_moves ?m1))" "make_move 2 ?m1 = Inr ?m2" by code_simp+
  with r1 have r2: "reach ?m2 [2, 0]" by (rule reach_make)
  have "3 \<in> set (fst (find_legal_moves ?m2))" "make_move 3 ?m2 = Inr ?m3" by code_simp+
  with r2 have r3: "reach ?m3 [3, 2, 0]" by (rule reach_make)
  have "6 \<in> set (fst (find_legal_moves ?m3))" "make_move 6 ?m3 = Inr ?m4" by code_simp+
  with r3 have r4: "reach ?m4 [6, 3, 2, 0]" by (rule reach_make)
  have "4 \<in> set (fst (find_legal_moves ?m4))" "make_move 4 ?m4 = Inr ?m5" by code_simp+
  with r4 have r5: "reach ?m5 [4, 6, 3, 2, 0]" by (rule reach_make)
  from r4 show "reachable ?m4" by (auto simp: reachable_def)
  from r5 show "reachable ?m5" by (auto simp: reachable_def)
qed

text \<open>
  C6: in every reachable state and for every depth, with more stack frames than empty
  cells or than the depth, \<open>search\<close> with the bounds \<open>-infinity\<close> and
  \<open>+infinity\<close> raises nothing and returns the value of negamax without pruning, a
  finite one; it leaves a state of the same position.
\<close>

theorem search_full_window_is_negamax:
  assumes "reachable m" and "empties m < frames \<or> (0 \<le> depth \<and> depth < int frames)"
  shows "\<exists>v m'. search frames depth MInf PInf m = Inr (Fin v, m')
           \<and> negamax frames depth m = Inr (Fin v) \<and> same_position m m'"
proof -
  have wf: "well_formed m"
    using assms(1) by (rule reachable_well_formed)
  from search_sound[OF wf assms(2) inf_less_Fin(3) same_position_refl]
  obtain v r m' where "negamax frames depth m = Inr (Fin v)"
    "search frames depth MInf PInf m = Inr (r, m')" "same_position m m'"
    "sound MInf PInf (Fin v) r"
    by blast
  then show ?thesis
    using sound_full by blast
qed

theorem search_full_window_is_negamax_witness:
  "reachable \<lparr>board = \<lparr>size_b = 3, cells = [1, 0, - 1, 1, 1, 0, - 1, 0, 0]\<rparr>,
       crosses = [0, 3, 4], noughts = [2, 6], turn = - 1, pieces_to_win = 3\<rparr>
   \<and> empties \<lparr>board = \<lparr>size_b = 3, cells = [1, 0, - 1, 1, 1, 0, - 1, 0, 0]\<rparr>,
       crosses = [0, 3, 4], noughts = [2, 6], turn = - 1, pieces_to_win = 3\<rparr> < 10
   \<and> search 10 9 MInf PInf \<lparr>board = \<lparr>size_b = 3, cells = [1, 0, - 1, 1, 1, 0, - 1, 0, 0]\<rparr>,
       crosses = [0, 3, 4], noughts = [2, 6], turn = - 1, pieces_to_win = 3\<rparr>
     = Inr (Fin 6, \<lparr>board = \<lparr>size_b = 3, cells = [1, 0, - 1, 1, 1, 0, - 1, 0, 0]\<rparr>,
       crosses = [0, 3, 4], noughts = [2, 6], turn = - 1, pieces_to_win = 3\<rparr>)
   \<and> negamax 10 9 \<lparr>board = \<lparr>size_b = 3, cells = [1, 0, - 1, 1, 1, 0, - 1, 0, 0]\<rparr>,
       crosses = [0, 3, 4], noughts = [2, 6], turn = - 1, pieces_to_win = 3\<rparr> = Inr (Fin 6)"
proof -
  let ?m = "\<lparr>board = \<lparr>size_b = 3, cells = [1, 0, - 1, 1, 1, 0, - 1, 0, 0]\<rparr>,
       crosses = [0, 3, 4], noughts = [2, 6], turn = - 1, pieces_to_win = 3\<rparr>"
  have r: "reachable ?m" by (rule example_states_reachable)
  have e0: "empties ?m < 10" by (simp add: empties_def)
  then have e: "empties ?m < 10 \<or> ((0::int) \<le> 9 \<and> (9::int) < int 10)" by simp
  have s: "search 10 9 MInf PInf ?m = Inr (Fin 6, ?m)" by code_simp
  from search_full_window_is_negamax[OF r e] s r e0 show ?thesis
    by simp
qed

section \<open>The choice of the root\<close>

lemma pick_cases:
  "(pick ev cs be bm = bm \<and> (\<forall>c \<in> set cs. ev c \<le> be))
   \<or> (\<exists>pre mv post. cs = pre @ mv # post \<and> pick ev cs be bm = Some mv \<and> be < ev mv
         \<and> (\<forall>c \<in> set pre. ev c < ev mv) \<and> (\<forall>c \<in> set post. ev c \<le> ev mv))"
proof (induction cs arbitrary: be bm)
  case Nil
  then show ?case by simp
next
  case (Cons c cs)
  show ?case
  proof (cases "be < ev c")
    case True
    from Cons.IH[of "ev c" "Some c"] show ?thesis
    proof
      assume "pick ev cs (ev c) (Some c) = Some c \<and> (\<forall>x \<in> set cs. ev x \<le> ev c)"
      then have "c # cs = [] @ c # cs \<and> pick ev (c # cs) be bm = Some c \<and> be < ev c
         \<and> (\<forall>x \<in> set []. ev x < ev c) \<and> (\<forall>x \<in> set cs. ev x \<le> ev c)"
        using True by simp
      then show ?thesis by blast
    next
      assume "\<exists>pre mv post. cs = pre @ mv # post \<and> pick ev cs (ev c) (Some c) = Some mv
         \<and> ev c < ev mv \<and> (\<forall>x \<in> set pre. ev x < ev mv) \<and> (\<forall>x \<in> set post. ev x \<le> ev mv)"
      then obtain pre mv post where
        p: "cs = pre @ mv # post" "pick ev cs (ev c) (Some c) = Some mv" "ev c < ev mv"
        "\<forall>x \<in> set pre. ev x < ev mv" "\<forall>x \<in> set post. ev x \<le> ev mv"
        by blast
      have "c # cs = (c # pre) @ mv # post \<and> pick ev (c # cs) be bm = Some mv \<and> be < ev mv
         \<and> (\<forall>x \<in> set (c # pre). ev x < ev mv) \<and> (\<forall>x \<in> set post. ev x \<le> ev mv)"
        using p True by auto
      then show ?thesis by blast
    qed
  next
    case False
    then have le: "ev c \<le> be" by (simp add: not_less)
    from Cons.IH[of be bm] show ?thesis
    proof
      assume "pick ev cs be bm = bm \<and> (\<forall>x \<in> set cs. ev x \<le> be)"
      then show ?thesis using False le by simp
    next
      assume "\<exists>pre mv post. cs = pre @ mv # post \<and> pick ev cs be bm = Some mv
         \<and> be < ev mv \<and> (\<forall>x \<in> set pre. ev x < ev mv) \<and> (\<forall>x \<in> set post. ev x \<le> ev mv)"
      then obtain pre mv post where
        p: "cs = pre @ mv # post" "pick ev cs be bm = Some mv" "be < ev mv"
        "\<forall>x \<in> set pre. ev x < ev mv" "\<forall>x \<in> set post. ev x \<le> ev mv"
        by blast
      have "c # cs = (c # pre) @ mv # post \<and> pick ev (c # cs) be bm = Some mv \<and> be < ev mv
         \<and> (\<forall>x \<in> set (c # pre). ev x < ev mv) \<and> (\<forall>x \<in> set post. ev x \<le> ev mv)"
        using p False le by auto
      then show ?thesis by blast
    qed
  qed
qed

lemma pick_first_max:
  assumes srt: "sorted_wrt (<) cs" and ne: "cs \<noteq> []" and fin: "\<forall>c \<in> set cs. MInf < ev c"
  shows "\<exists>mv. pick ev cs MInf None = Some mv \<and> mv \<in> set cs
           \<and> (\<forall>c \<in> set cs. ev c \<le> ev mv \<and> (c < mv \<longrightarrow> ev c < ev mv))"
proof -
  from pick_cases[of ev cs MInf None] show ?thesis
  proof
    assume "pick ev cs MInf None = None \<and> (\<forall>c \<in> set cs. ev c \<le> MInf)"
    then have "ev (hd cs) \<le> MInf" using ne by simp
    moreover have "MInf < ev (hd cs)" using fin ne by simp
    ultimately show ?thesis by simp
  next
    assume "\<exists>pre mv post. cs = pre @ mv # post \<and> pick ev cs MInf None = Some mv
       \<and> MInf < ev mv \<and> (\<forall>c \<in> set pre. ev c < ev mv) \<and> (\<forall>c \<in> set post. ev c \<le> ev mv)"
    then obtain pre mv post where
      p: "cs = pre @ mv # post" "pick ev cs MInf None = Some mv"
      "\<forall>c \<in> set pre. ev c < ev mv" "\<forall>c \<in> set post. ev c \<le> ev mv"
      by blast
    from srt p(1) have after: "\<forall>c \<in> set post. mv < c"
      by (simp add: sorted_wrt_append)
    have "ev c \<le> ev mv \<and> (c < mv \<longrightarrow> ev c < ev mv)" if "c \<in> set cs" for c
    proof -
      from that p(1) consider "c \<in> set pre" | "c = mv" | "c \<in> set post" by auto
      then show ?thesis
      proof cases
        case 1
        then show ?thesis using p(3) by (simp add: less_imp_le)
      next
        case 2
        then show ?thesis by simp
      next
        case 3
        then show ?thesis using p(4) after by fastforce
      qed
    qed
    then show ?thesis using p(1,2) by auto
  qed
qed

lemma search_root_loop_value:
  assumes wf: "well_formed m"
    and ev: "\<And>c m1 m1'. c \<in> set (fst (find_legal_moves m)) \<Longrightarrow> make_move c m = Inr m1
        \<Longrightarrow> same_position m1 m1'
        \<Longrightarrow> \<exists>m2. search f (d - 1) MInf PInf m1' = Inr (ev c, m2) \<and> same_position m1' m2"
  shows "set cs \<subseteq> set (fst (find_legal_moves m)) \<Longrightarrow> same_position m mk
    \<Longrightarrow> \<exists>m'. search_root_loop f d cs be bm mk = Inr (pick ev cs be bm, m')
           \<and> same_position m m'"
proof (induction cs arbitrary: be bm mk)
  case Nil
  then show ?case by simp
next
  case (Cons c cs)
  from Cons.prems(1) have legal: "c \<in> set (fst (find_legal_moves m))"
    and rest: "set cs \<subseteq> set (fst (find_legal_moves m))"
    by simp_all
  from make_move_well_formed[OF wf legal] obtain m1 where m1: "make_move c m = Inr m1"
    by blast
  from same_position_make_move[OF Cons.prems(2) legal m1] obtain m1' where
    m1': "make_move c mk = Inr m1'" and sp1: "same_position m1 m1'"
    by blast
  from ev[OF legal m1 sp1] obtain m2 where
    r: "search f (d - 1) MInf PInf m1' = Inr (ev c, m2)" and sp2: "same_position m1' m2"
    by blast
  from unmake_after_make[OF wf legal m1 same_position_trans[OF sp1 sp2]] obtain m3 where
    m3: "unmake_move c m2 = Inr m3" and sp3: "same_position m m3"
    by blast
  show ?case
    using Cons.IH[OF rest sp3, of "ev c" "Some c"] Cons.IH[OF rest sp3, of be bm]
    by (simp add: m1' r m3 ext_less_iff)
qed


lemma child_search:
  assumes wf: "well_formed m" and c: "c \<in> set (fst (find_legal_moves m))"
    and fr: "empties m \<le> frames \<or> (0 \<le> d \<and> d < int frames)"
  shows "\<exists>m1 v. make_move c m = Inr m1 \<and> negamax frames d m1 = Inr (Fin v)
        \<and> (\<forall>m1'. same_position m1 m1' \<longrightarrow>
              (\<exists>m2. search frames d MInf PInf m1' = Inr (Fin v, m2)
                 \<and> same_position m1' m2))"
proof -
  from make_move_well_formed[OF wf c] obtain m1 where
    m1: "make_move c m = Inr m1" and wf1: "well_formed m1"
    and e1: "Suc (empties m1) = empties m"
    by blast
  from e1 fr have e: "empties m1 < frames \<or> (0 \<le> d \<and> d < int frames)" by auto
  from search_sound[OF wf1 e inf_less_Fin(3) same_position_refl]
  obtain v where v: "negamax frames d m1 = Inr (Fin v)"
    by blast
  have "\<exists>m2. search frames d MInf PInf m1' = Inr (Fin v, m2) \<and> same_position m1' m2"
    if s: "same_position m1 m1'" for m1'
  proof -
    from search_sound[OF wf1 e inf_less_Fin(3) s] obtain r m2 where
      r: "search frames d MInf PInf m1' = Inr (r, m2)" and s2: "same_position m1 m2"
      and so: "sound MInf PInf (Fin v) r"
      using v by auto
    have "r = Fin v" using so by (rule sound_full)
    moreover have "same_position m1' m2"
      using same_position_sym[OF s] s2 by (rule same_position_trans)
    ultimately show ?thesis using r by simp
  qed
  then show ?thesis
    using m1 v by blast
qed

lemma child_evaluation:
  assumes wf: "well_formed m" and c: "c \<in> set (fst (find_legal_moves m))"
    and fr: "empties m \<le> frames \<or> (0 \<le> depth - 1 \<and> depth - 1 < int frames)"
  shows "move_evaluation frames depth m c = Inr (neg (move_value frames (depth - 1) m c))"
    and "MInf < neg (move_value frames (depth - 1) m c)"
proof -
  from child_search[OF wf c fr] obtain m1 v where
    m1: "make_move c m = Inr m1" and v: "negamax frames (depth - 1) m1 = Inr (Fin v)"
    and s: "\<forall>m1'. same_position m1 m1' \<longrightarrow>
            (\<exists>m2. search frames (depth - 1) MInf PInf m1' = Inr (Fin v, m2)
               \<and> same_position m1' m2)"
    by blast
  from s same_position_refl[of m1] obtain m2 where
    r: "search frames (depth - 1) MInf PInf m1 = Inr (Fin v, m2)"
    by blast
  have mv: "neg (move_value frames (depth - 1) m c) = Fin v"
    by (simp add: move_value_def m1 v)
  show "move_evaluation frames depth m c = Inr (neg (move_value frames (depth - 1) m c))"
    unfolding mv by (simp add: move_evaluation_def m1 r)
  show "MInf < neg (move_value frames (depth - 1) m c)"
    unfolding mv by (rule inf_less_Fin)
qed

lemma child_search_value:
  assumes wf: "well_formed m" and c: "c \<in> set (fst (find_legal_moves m))"
    and fr: "empties m \<le> frames \<or> (0 \<le> depth - 1 \<and> depth - 1 < int frames)"
    and m1: "make_move c m = Inr m1" and sp: "same_position m1 m1'"
  shows "\<exists>m2. search frames (depth - 1) MInf PInf m1'
                = Inr (neg (move_value frames (depth - 1) m c), m2)
             \<and> same_position m1' m2"
proof -
  from child_search[OF wf c fr] m1 obtain v where
    v: "negamax frames (depth - 1) m1 = Inr (Fin v)"
    and s: "\<forall>m1'. same_position m1 m1' \<longrightarrow>
            (\<exists>m2. search frames (depth - 1) MInf PInf m1' = Inr (Fin v, m2)
               \<and> same_position m1' m2)"
    by auto
  have mv: "neg (move_value frames (depth - 1) m c) = Fin v"
    by (simp add: move_value_def m1 v)
  show ?thesis
    unfolding mv using s sp by blast
qed

text \<open>
  C7: in every reachable state with a legal move and for every depth, with as many stack
  frames as empty cells or as the depth, \<open>search_root\<close> returns a legal move; no
  legal move has a greater evaluation, and every legal move of lower index has a strictly
  smaller one.
\<close>

theorem search_root_picks_first_best:
  assumes "reachable m" and "fst (find_legal_moves m) \<noteq> []"
    and "empties m \<le> frames \<or> (1 \<le> depth \<and> depth \<le> int frames)"
  shows "\<exists>move best m'. search_root frames depth m = Inr (Some move, m')
           \<and> move \<in> set (fst (find_legal_moves m))
           \<and> move_evaluation frames depth m move = Inr best
           \<and> (\<forall>c \<in> set (fst (find_legal_moves m)).
                 \<exists>e. move_evaluation frames depth m c = Inr e \<and> e \<le> best
                     \<and> (c < move \<longrightarrow> e < best))
           \<and> same_position m m'"
proof -
  let ?L = "fst (find_legal_moves m)"
  define ev where "ev = (\<lambda>c. neg (move_value frames (depth - 1) m c))"
  have wf: "well_formed m"
    using assms(1) by (rule reachable_well_formed)
  have fr: "empties m \<le> frames \<or> (0 \<le> depth - 1 \<and> depth - 1 < int frames)"
    using assms(3) by auto
  have me: "move_evaluation frames depth m c = Inr (ev c)" and fin: "MInf < ev c"
    if c: "c \<in> set ?L" for c
    using child_evaluation[OF wf c fr] by (simp_all add: ev_def)
  have evs: "\<exists>m2. search frames (depth - 1) MInf PInf m1' = Inr (ev c, m2) \<and> same_position m1' m2"
    if "c \<in> set ?L" "make_move c m = Inr m1" "same_position m1 m1'" for c m1 m1'
    unfolding ev_def using wf that(1) fr that(2,3) by (rule child_search_value)
  have "\<exists>m'. search_root_loop frames depth ?L MInf None m = Inr (pick ev ?L MInf None, m')
           \<and> same_position m m'"
  proof (rule search_root_loop_value[where ev = ev and cs = ?L])
    show "well_formed m" by (rule wf)
    show "set ?L \<subseteq> set ?L" by simp
    show "same_position m m" by (rule same_position_refl)
  qed (rule evs)
  then obtain m' where
    l: "search_root_loop frames depth ?L MInf None m = Inr (pick ev ?L MInf None, m')"
    and sp: "same_position m m'"
    by blast
  have "\<forall>c \<in> set ?L. MInf < ev c"
    using fin by blast
  from pick_first_max[OF legal_moves_sorted assms(2) this] obtain mv where
    mv: "pick ev ?L MInf None = Some mv" "mv \<in> set ?L"
    "\<forall>c \<in> set ?L. ev c \<le> ev mv \<and> (c < mv \<longrightarrow> ev c < ev mv)"
    by blast
  have sr: "search_root frames depth m = Inr (Some mv, m')"
    using l mv(1) by (simp add: search_root_def find_legal_moves_def)
  have all: "\<forall>c \<in> set ?L. \<exists>e. move_evaluation frames depth m c = Inr e \<and> e \<le> ev mv
                     \<and> (c < mv \<longrightarrow> e < ev mv)"
    using mv(3) me by blast
  have best: "move_evaluation frames depth m mv = Inr (ev mv)"
    using me[OF mv(2)] .
  from sr mv(2) best all sp show ?thesis
    by blast
qed

theorem search_root_picks_first_best_witness:
  "reachable \<lparr>board = \<lparr>size_b = 3, cells = [1, 0, - 1, 1, 0, 0, - 1, 0, 0]\<rparr>,
       crosses = [0, 3], noughts = [2, 6], turn = 1, pieces_to_win = 3\<rparr>
   \<and> fst (find_legal_moves \<lparr>board = \<lparr>size_b = 3, cells = [1, 0, - 1, 1, 0, 0, - 1, 0, 0]\<rparr>,
       crosses = [0, 3], noughts = [2, 6], turn = 1, pieces_to_win = 3\<rparr>) \<noteq> []
   \<and> empties \<lparr>board = \<lparr>size_b = 3, cells = [1, 0, - 1, 1, 0, 0, - 1, 0, 0]\<rparr>,
       crosses = [0, 3], noughts = [2, 6], turn = 1, pieces_to_win = 3\<rparr> \<le> 10
   \<and> search_root 10 9 \<lparr>board = \<lparr>size_b = 3, cells = [1, 0, - 1, 1, 0, 0, - 1, 0, 0]\<rparr>,
       crosses = [0, 3], noughts = [2, 6], turn = 1, pieces_to_win = 3\<rparr>
     = Inr (Some 4, \<lparr>board = \<lparr>size_b = 3, cells = [1, 0, - 1, 1, 0, 0, - 1, 0, 0]\<rparr>,
       crosses = [0, 3], noughts = [2, 6], turn = 1, pieces_to_win = 3\<rparr>)
   \<and> move_evaluation 10 9 \<lparr>board = \<lparr>size_b = 3, cells = [1, 0, - 1, 1, 0, 0, - 1, 0, 0]\<rparr>,
       crosses = [0, 3], noughts = [2, 6], turn = 1, pieces_to_win = 3\<rparr> 1 = Inr (Fin (- 6))
   \<and> move_evaluation 10 9 \<lparr>board = \<lparr>size_b = 3, cells = [1, 0, - 1, 1, 0, 0, - 1, 0, 0]\<rparr>,
       crosses = [0, 3], noughts = [2, 6], turn = 1, pieces_to_win = 3\<rparr> 4 = Inr (Fin 5)
   \<and> move_evaluation 10 9 \<lparr>board = \<lparr>size_b = 3, cells = [1, 0, - 1, 1, 0, 0, - 1, 0, 0]\<rparr>,
       crosses = [0, 3], noughts = [2, 6], turn = 1, pieces_to_win = 3\<rparr> 5 = Inr (Fin 5)"
proof -
  let ?m = "\<lparr>board = \<lparr>size_b = 3, cells = [1, 0, - 1, 1, 0, 0, - 1, 0, 0]\<rparr>,
       crosses = [0, 3], noughts = [2, 6], turn = 1, pieces_to_win = 3\<rparr>"
  have r: "reachable ?m" by (rule example_states_reachable)
  have l: "fst (find_legal_moves ?m) \<noteq> []" by (simp add: find_legal_moves_def)
  have e0: "empties ?m \<le> 10" by (simp add: empties_def)
  then have e: "empties ?m \<le> 10 \<or> ((1::int) \<le> 9 \<and> (9::int) \<le> int 10)" by simp
  have s: "search_root 10 9 ?m = Inr (Some 4, ?m)" by code_simp
  have v: "move_evaluation 10 9 ?m 1 = Inr (Fin (- 6))"
    "move_evaluation 10 9 ?m 4 = Inr (Fin 5)"
    "move_evaluation 10 9 ?m 5 = Inr (Fin 5)"
    by code_simp+
  from search_root_picks_first_best[OF r l e] s v r l e0 show ?thesis
    by simp
qed

section \<open>The game on the 3x3 board\<close>

lemma length_9:
  assumes "length xs = 9"
  obtains a b c d e f g h i where "xs = [a, b, c, d, e, f, g, h, i]"
proof -
  from assms have "\<exists>a b c d e f g h i. xs = [a, b, c, d, e, f, g, h, i]"
    by (auto simp: eval_nat_numeral length_Suc_conv)
  then show ?thesis using that by blast
qed

lemma cell_wins_3x3:
  fixes a b c d e f g h i :: int
  defines "B \<equiv> \<lparr>size_b = 3, cells = [a, b, c, d, e, f, g, h, i]\<rparr>"
  shows "cell_wins B 3 0 \<longleftrightarrow> (b = a \<and> c = a) \<or> (d = a \<and> g = a) \<or> (e = a \<and> i = a)"
    and "cell_wins B 3 1 \<longleftrightarrow> (e = b \<and> h = b)"
    and "cell_wins B 3 2 \<longleftrightarrow> (b = c \<and> a = c) \<or> (f = c \<and> i = c) \<or> (e = c \<and> g = c)"
    and "cell_wins B 3 3 \<longleftrightarrow> (e = d \<and> f = d)"
    and "cell_wins B 3 4 \<longleftrightarrow> False"
    and "cell_wins B 3 5 \<longleftrightarrow> (e = f \<and> d = f)"
    and "cell_wins B 3 6 \<longleftrightarrow> (h = g \<and> i = g) \<or> (d = g \<and> a = g) \<or> (e = g \<and> c = g)"
    and "cell_wins B 3 7 \<longleftrightarrow> (e = h \<and> b = h)"
    and "cell_wins B 3 8 \<longleftrightarrow> (h = i \<and> g = i) \<or> (f = i \<and> c = i) \<or> (e = i \<and> a = i)"
  unfolding B_def cell_wins_def line_from_def directions_def
  by (auto simp add: on_grid_def step_x_def step_y_def grid_index_def upto_rec1)

lemma placed_iff:
  assumes "consistent m"
  shows "c \<in> set (if turn m = - 1 then crosses m else noughts m)
     \<longleftrightarrow> 0 \<le> c \<and> c < size_b (board m) * size_b (board m)
         \<and> cells (board m) ! nat c = - turn m"
proof -
  from assms have wf: "well_formed m"
    by (simp add: consistent_def Let_def)
  then have t: "turn m = 1 \<or> turn m = - 1"
    and r: "\<forall>c \<in> set (crosses m) \<union> set (noughts m).
              0 \<le> c \<and> c < size_b (board m) * size_b (board m)"
    by (simp_all add: well_formed_def Let_def)
  have k: "(cells (board m) ! nat c = 1 \<longleftrightarrow> c \<in> set (crosses m))
     \<and> (cells (board m) ! nat c = - 1 \<longleftrightarrow> c \<in> set (noughts m))"
    if "0 \<le> c" "c < size_b (board m) * size_b (board m)"
  proof -
    from that have "c \<in> set [0..size_b (board m) * size_b (board m) - 1]" by simp
    with assms show ?thesis
      unfolding consistent_def Let_def by blast
  qed
  show ?thesis
    using t r k by (auto split: if_splits)
qed

lemma check_win_3x3:
  assumes "standard m"
  shows "check_win m = Inr (if fwon (cells (board m)) (- turn m) then 1 else 0)"
proof -
  from assms have cm: "consistent m" and n: "size_b (board m) = 3" and k: "pieces_to_win m = 3"
    by (simp_all add: standard_def)
  from cm have wf: "well_formed m"
    by (simp add: consistent_def Let_def)
  with n have "length (cells (board m)) = 9"
    by (simp add: well_formed_def Let_def)
  then obtain a b c d e f g h i where cs: "cells (board m) = [a, b, c, d, e, f, g, h, i]"
    by (rule length_9)
  let ?B = "\<lparr>size_b = 3, cells = [a, b, c, d, e, f, g, h, i]\<rparr>"
  have B: "board m = ?B"
    using n cs by simp
  let ?p = "- turn m"
  have "(\<exists>x \<in> set (if turn m = - 1 then crosses m else noughts m). cell_wins ?B 3 x)
      \<longleftrightarrow> (\<exists>x \<in> set [0..8]. [a, b, c, d, e, f, g, h, i] ! nat x = ?p \<and> cell_wins ?B 3 x)"
    using placed_iff[OF cm] by (auto simp: B)
  also have "\<dots> \<longleftrightarrow> fwon [a, b, c, d, e, f, g, h, i] ?p"
    by (simp add: upto_rec1 cell_wins_3x3 line3_def)
  finally show ?thesis
    using check_win_char[OF wf] by (simp add: B k)
qed


lemma make_move_consistent:
  assumes cm: "consistent m" and legal: "cell \<in> set (fst (find_legal_moves m))"
    and mk: "make_move cell m = Inr m1"
  shows "consistent m1"
proof -
  let ?n = "size_b (board m)" and ?cs = "cells (board m)"
  from cm have wf: "well_formed m"
    by (simp add: consistent_def Let_def)
  from legal have r: "0 \<le> cell" "cell < int (length ?cs)" and z: "?cs ! nat cell = 0"
    by (simp_all add: legal_move_iff)
  from wf have len: "int (length ?cs) = ?n * ?n" and t: "turn m = 1 \<or> turn m = - 1"
    by (simp_all add: well_formed_def Let_def)
  have d: "distinct (crosses m)" "distinct (noughts m)"
    and inv: "\<forall>i \<in> set [0..?n * ?n - 1].
               (?cs ! nat i = 1 \<longleftrightarrow> i \<in> set (crosses m))
             \<and> (?cs ! nat i = - 1 \<longleftrightarrow> i \<in> set (noughts m))
             \<and> (?cs ! nat i = 1 \<or> ?cs ! nat i = 0 \<or> ?cs ! nat i = - 1)"
    using cm unfolding consistent_def Let_def by blast+
  have cin: "cell \<in> set [0..?n * ?n - 1]"
    using r len by simp
  with inv z have fresh: "cell \<notin> set (crosses m)" "cell \<notin> set (noughts m)"
    by force+
  from make_move_well_formed[OF wf legal] mk have wf1: "well_formed m1"
    by simp
  have nth: "(?cs[nat cell := v]) ! nat i = (if i = cell then v else ?cs ! nat i)"
    if "i \<in> set [0..?n * ?n - 1]" for i v
    using that r len by (auto simp: nth_list_update)
  from t show ?thesis
  proof
    assume t1: "turn m = 1"
    with mk have m1: "m1 = m\<lparr>crosses := crosses m @ [cell],
                 board := (board m)\<lparr>cells := ?cs[nat cell := 1]\<rparr>, turn := - 1\<rparr>"
      unfolding make_move_legal[OF legal] by simp
    then have f: "crosses m1 = crosses m @ [cell]" "noughts m1 = noughts m"
      "size_b (board m1) = ?n" "cells (board m1) = ?cs[nat cell := 1]"
      by simp_all
    show ?thesis
      unfolding consistent_def Let_def f
      using wf1 d fresh inv nth by auto
  next
    assume t1: "turn m = - 1"
    with mk have m1: "m1 = m\<lparr>noughts := noughts m @ [cell],
                 board := (board m)\<lparr>cells := ?cs[nat cell := - 1]\<rparr>, turn := 1\<rparr>"
      unfolding make_move_legal[OF legal] by simp
    then have f: "crosses m1 = crosses m" "noughts m1 = noughts m @ [cell]"
      "size_b (board m1) = ?n" "cells (board m1) = ?cs[nat cell := - 1]"
      by simp_all
    show ?thesis
      unfolding consistent_def Let_def f
      using wf1 d fresh inv nth by auto
  qed
qed


lemma standard_make_move:
  assumes st: "standard m" and legal: "cell \<in> set (fst (find_legal_moves m))"
  shows "\<exists>m1. make_move cell m = Inr m1 \<and> standard m1 \<and> Suc (empties m1) = empties m
           \<and> cells (board m1) = (cells (board m))[nat cell := turn m]
           \<and> turn m1 = - turn m \<and> unmake_move cell m1 = Inr m"
proof -
  from st have cm: "consistent m" and n: "size_b (board m) = 3" and k: "pieces_to_win m = 3"
    by (simp_all add: standard_def)
  from cm have wf: "well_formed m"
    by (simp add: consistent_def Let_def)
  then have t: "turn m = 1 \<or> turn m = - 1"
    by (simp add: well_formed_def Let_def)
  from make_move_well_formed[OF wf legal] obtain m1 where
    m1: "make_move cell m = Inr m1" and e: "Suc (empties m1) = empties m"
    by blast
  have c1: "consistent m1"
    using cm legal m1 by (rule make_move_consistent)
  from m1 have f: "size_b (board m1) = 3" "pieces_to_win m1 = 3"
    "cells (board m1) = (cells (board m))[nat cell := turn m]" "turn m1 = - turn m"
    unfolding make_move_legal[OF legal] using n k by auto
  from legal have r: "0 \<le> cell" "cell < int (length (cells (board m)))"
    and z: "cells (board m) ! nat cell = 0"
    by (simp_all add: legal_move_iff)
  have inv: "\<forall>i \<in> set [0..size_b (board m) * size_b (board m) - 1].
               (cells (board m) ! nat i = 1 \<longleftrightarrow> i \<in> set (crosses m))
             \<and> (cells (board m) ! nat i = - 1 \<longleftrightarrow> i \<in> set (noughts m))
             \<and> (cells (board m) ! nat i = 1 \<or> cells (board m) ! nat i = 0
                  \<or> cells (board m) ! nat i = - 1)"
    using cm unfolding consistent_def Let_def by blast
  have "cell \<in> set [0..size_b (board m) * size_b (board m) - 1]"
    using r wf by (simp add: well_formed_def Let_def)
  with inv z have fresh: "cell \<notin> set (crosses m)" "cell \<notin> set (noughts m)"
    by force+
  from make_unmake_roundtrip[OF legal t fresh] m1 have "unmake_move cell m1 = Inr m"
    by simp
  then show ?thesis
    using m1 c1 f e by (simp add: standard_def)
qed

lemma search_loop_exact:
  assumes "\<And>c a b. c \<in> set cs \<Longrightarrow>
     \<exists>m1. make_move c m = Inr m1 \<and> rec a b m1 = Inr (g c a b, m1) \<and> unmake_move c m1 = Inr m"
  shows "search_loop rec cs a0 beta m = Inr (floop g cs a0 beta, m)"
  using assms
proof (induction cs arbitrary: a0)
  case Nil
  then show ?case by simp
next
  case (Cons c cs)
  from Cons.prems[of c "neg beta" "neg a0"] obtain m1 where
    "make_move c m = Inr m1" "rec (neg beta) (neg a0) m1 = Inr (g c (neg beta) (neg a0), m1)"
    "unmake_move c m1 = Inr m"
    by auto
  then show ?case
    using Cons.IH Cons.prems by (simp add: Let_def)
qed

lemma search_fsearch:
  "standard m \<Longrightarrow> empties m < f \<Longrightarrow>
     search f d a b m = Inr (fsearch f d a b (cells (board m)) (turn m), m)"
proof (induction f arbitrary: d a b m)
  case 0
  then show ?case by simp
next
  case (Suc f)
  note st = Suc.prems(1)
  let ?L = "fst (find_legal_moves m)"
  have lg: "find_legal_moves m = (legal_moves_loop 0 (cells (board m)) [], m)"
    by (simp add: find_legal_moves_def)
  have L: "?L = legal_moves_loop 0 (cells (board m)) []"
    by (simp add: find_legal_moves_def)
  have cw: "check_win m = Inr (if fwon (cells (board m)) (- turn m) then 1 else 0)"
    using st by (rule check_win_3x3)
  let ?g = "\<lambda>c a' b'. fsearch f (d - 1) a' b' ((cells (board m))[nat c := turn m]) (- turn m)"
  have child: "\<exists>m1. make_move c m = Inr m1
       \<and> search f (d - 1) a' b' m1 = Inr (?g c a' b', m1) \<and> unmake_move c m1 = Inr m"
    if "c \<in> set ?L" for c a' b'
  proof -
    from standard_make_move[OF st that] obtain m1 where
      m1: "make_move c m = Inr m1" "standard m1" "Suc (empties m1) = empties m"
      "cells (board m1) = (cells (board m))[nat c := turn m]" "turn m1 = - turn m"
      "unmake_move c m1 = Inr m"
      by blast
    from m1(3) Suc.prems(2) have "empties m1 < f" by simp
    from Suc.IH[OF m1(2) this, of "d - 1" a' b'] m1 show ?thesis
      by simp
  qed
  have "search_loop (search f (d - 1)) ?L a b m = Inr (floop ?g ?L a b, m)"
    using child by (rule search_loop_exact)
  then have sl: "search_loop (search f (d - 1)) (legal_moves_loop 0 (cells (board m)) []) a b m
      = Inr (floop ?g (legal_moves_loop 0 (cells (board m)) []) a b, m)"
    by (simp add: L)
  show ?case
    by (simp add: cw lg sl Let_def)
qed

lemma search_root_loop_exact:
  assumes "\<And>c. c \<in> set cs \<Longrightarrow>
     \<exists>m1. make_move c m = Inr m1 \<and> search f (d - 1) MInf PInf m1 = Inr (ev c, m1)
        \<and> unmake_move c m1 = Inr m"
  shows "search_root_loop f d cs be bm m = Inr (fpick ev cs be bm, m)"
  using assms
proof (induction cs arbitrary: be bm)
  case Nil
  then show ?case by simp
next
  case (Cons c cs)
  from Cons.prems[of c] obtain m1 where
    "make_move c m = Inr m1" "search f (d - 1) MInf PInf m1 = Inr (ev c, m1)"
    "unmake_move c m1 = Inr m"
    by auto
  then show ?case
    using Cons.IH Cons.prems by (simp add: Let_def)
qed

lemma search_root_froot:
  assumes st: "standard m" and fr: "empties m \<le> f"
  shows "search_root f d m = Inr (froot f d (cells (board m)) (turn m), m)"
proof -
  let ?L = "fst (find_legal_moves m)"
  let ?ev = "\<lambda>c. fsearch f (d - 1) MInf PInf ((cells (board m))[nat c := turn m]) (- turn m)"
  have child: "\<exists>m1. make_move c m = Inr m1
       \<and> search f (d - 1) MInf PInf m1 = Inr (?ev c, m1) \<and> unmake_move c m1 = Inr m"
    if "c \<in> set ?L" for c
  proof -
    from standard_make_move[OF st that] obtain m1 where
      m1: "make_move c m = Inr m1" "standard m1" "Suc (empties m1) = empties m"
      "cells (board m1) = (cells (board m))[nat c := turn m]" "turn m1 = - turn m"
      "unmake_move c m1 = Inr m"
      by blast
    from m1(3) fr have "empties m1 < f" by simp
    from search_fsearch[OF m1(2) this, of "d - 1" MInf PInf] m1 show ?thesis
      by simp
  qed
  have "search_root_loop f d ?L MInf None m = Inr (fpick ?ev ?L MInf None, m)"
    using child by (rule search_root_loop_exact)
  then show ?thesis
    by (simp add: search_root_def froot_def find_legal_moves_def)
qed


lemma froot_move_1: "froot 1000 9 [0, 0, 0, 0, 0, 0, 0, 0, 0] 1 = Some 0"
  by code_simp

lemma froot_move_2: "froot 1000 9 [1, 0, 0, 0, 0, 0, 0, 0, 0] (- 1) = Some 2"
  by code_simp

lemma froot_move_3: "froot 1000 9 [1, 0, - 1, 0, 0, 0, 0, 0, 0] 1 = Some 3"
  by code_simp

lemma froot_move_4: "froot 1000 9 [1, 0, - 1, 1, 0, 0, 0, 0, 0] (- 1) = Some 6"
  by code_simp

lemma froot_move_5: "froot 1000 9 [1, 0, - 1, 1, 0, 0, - 1, 0, 0] 1 = Some 4"
  by code_simp

lemma froot_move_6: "froot 1000 9 [1, 0, - 1, 1, 1, 0, - 1, 0, 0] (- 1) = Some 8"
  by code_simp

lemma froot_move_7: "froot 1000 9 [1, 0, - 1, 1, 1, 0, - 1, 0, - 1] 1 = Some 5"
  by code_simp

lemma self_play_continues:
  assumes "search_root frames depth m = Inr (Some move, m)" and "make_move move m = Inr m2"
    and "check_win m2 = Inr 0" and "self_play rounds frames depth m2 = Inr log"
  shows "self_play (Suc rounds) frames depth m = Inr ((move, 0) # log)"
  using assms by simp

lemma self_play_ends:
  assumes "search_root frames depth m = Inr (Some move, m)" and "make_move move m = Inr m2"
    and "check_win m2 = Inr win" and "win \<noteq> 0"
  shows "self_play (Suc rounds) frames depth m = Inr [(move, win)]"
  using assms by simp

text \<open>
  C8: from the empty 3x3 board with win length 3, when both sides choose their moves with
  \<open>search_root(9)\<close>, every move is in \<open>[0, 8]\<close> and \<open>check_win\<close> stays 0 until the
  board is full. The moves the code plays are 0, 2, 3, 6, 4, 8, 5, all in \<open>[0, 8]\<close>;
  after the seventh, with the cells 1 and 7 still empty, crosses hold the row 3, 4, 5 and
  \<open>check_win\<close> returns 1.
\<close>

theorem self_play_is_won_by_crosses:
  "(case manager_init (Board_init 3) (Some 3) of Inr m \<Rightarrow> self_play 9 1000 9 m)
     = Inr [(0, 0), (2, 0), (3, 0), (6, 0), (4, 0), (8, 0), (5, 1)]"
proof -
  let ?m0 = "\<lparr>board = \<lparr>size_b = 3, cells = [0, 0, 0, 0, 0, 0, 0, 0, 0]\<rparr>,
       crosses = [], noughts = [], turn = 1, pieces_to_win = 3\<rparr>"
  let ?m1 = "\<lparr>board = \<lparr>size_b = 3, cells = [1, 0, 0, 0, 0, 0, 0, 0, 0]\<rparr>,
       crosses = [0], noughts = [], turn = - 1, pieces_to_win = 3\<rparr>"
  let ?m2 = "\<lparr>board = \<lparr>size_b = 3, cells = [1, 0, - 1, 0, 0, 0, 0, 0, 0]\<rparr>,
       crosses = [0], noughts = [2], turn = 1, pieces_to_win = 3\<rparr>"
  let ?m3 = "\<lparr>board = \<lparr>size_b = 3, cells = [1, 0, - 1, 1, 0, 0, 0, 0, 0]\<rparr>,
       crosses = [0, 3], noughts = [2], turn = - 1, pieces_to_win = 3\<rparr>"
  let ?m4 = "\<lparr>board = \<lparr>size_b = 3, cells = [1, 0, - 1, 1, 0, 0, - 1, 0, 0]\<rparr>,
       crosses = [0, 3], noughts = [2, 6], turn = 1, pieces_to_win = 3\<rparr>"
  let ?m5 = "\<lparr>board = \<lparr>size_b = 3, cells = [1, 0, - 1, 1, 1, 0, - 1, 0, 0]\<rparr>,
       crosses = [0, 3, 4], noughts = [2, 6], turn = - 1, pieces_to_win = 3\<rparr>"
  let ?m6 = "\<lparr>board = \<lparr>size_b = 3, cells = [1, 0, - 1, 1, 1, 0, - 1, 0, - 1]\<rparr>,
       crosses = [0, 3, 4], noughts = [2, 6, 8], turn = 1, pieces_to_win = 3\<rparr>"
  let ?m7 = "\<lparr>board = \<lparr>size_b = 3, cells = [1, 0, - 1, 1, 1, 1, - 1, 0, - 1]\<rparr>,
       crosses = [0, 3, 4, 5], noughts = [2, 6, 8], turn = - 1, pieces_to_win = 3\<rparr>"
  have st0: "standard ?m0" by code_simp
  have e0: "empties ?m0 \<le> 1000" by (simp add: empties_def)
  have r0: "search_root 1000 9 ?m0 = Inr (Some 0, ?m0)"
    using search_root_froot[OF st0 e0, of 9] froot_move_1 by simp
  have mk0: "make_move 0 ?m0 = Inr ?m1" by code_simp
  have cw0: "check_win ?m1 = Inr 0" by code_simp
  have st1: "standard ?m1" by code_simp
  have e1: "empties ?m1 \<le> 1000" by (simp add: empties_def)
  have r1: "search_root 1000 9 ?m1 = Inr (Some 2, ?m1)"
    using search_root_froot[OF st1 e1, of 9] froot_move_2 by simp
  have mk1: "make_move 2 ?m1 = Inr ?m2" by code_simp
  have cw1: "check_win ?m2 = Inr 0" by code_simp
  have st2: "standard ?m2" by code_simp
  have e2: "empties ?m2 \<le> 1000" by (simp add: empties_def)
  have r2: "search_root 1000 9 ?m2 = Inr (Some 3, ?m2)"
    using search_root_froot[OF st2 e2, of 9] froot_move_3 by simp
  have mk2: "make_move 3 ?m2 = Inr ?m3" by code_simp
  have cw2: "check_win ?m3 = Inr 0" by code_simp
  have st3: "standard ?m3" by code_simp
  have e3: "empties ?m3 \<le> 1000" by (simp add: empties_def)
  have r3: "search_root 1000 9 ?m3 = Inr (Some 6, ?m3)"
    using search_root_froot[OF st3 e3, of 9] froot_move_4 by simp
  have mk3: "make_move 6 ?m3 = Inr ?m4" by code_simp
  have cw3: "check_win ?m4 = Inr 0" by code_simp
  have st4: "standard ?m4" by code_simp
  have e4: "empties ?m4 \<le> 1000" by (simp add: empties_def)
  have r4: "search_root 1000 9 ?m4 = Inr (Some 4, ?m4)"
    using search_root_froot[OF st4 e4, of 9] froot_move_5 by simp
  have mk4: "make_move 4 ?m4 = Inr ?m5" by code_simp
  have cw4: "check_win ?m5 = Inr 0" by code_simp
  have st5: "standard ?m5" by code_simp
  have e5: "empties ?m5 \<le> 1000" by (simp add: empties_def)
  have r5: "search_root 1000 9 ?m5 = Inr (Some 8, ?m5)"
    using search_root_froot[OF st5 e5, of 9] froot_move_6 by simp
  have mk5: "make_move 8 ?m5 = Inr ?m6" by code_simp
  have cw5: "check_win ?m6 = Inr 0" by code_simp
  have st6: "standard ?m6" by code_simp
  have e6: "empties ?m6 \<le> 1000" by (simp add: empties_def)
  have r6: "search_root 1000 9 ?m6 = Inr (Some 5, ?m6)"
    using search_root_froot[OF st6 e6, of 9] froot_move_7 by simp
  have mk6: "make_move 5 ?m6 = Inr ?m7" by code_simp
  have cw6: "check_win ?m7 = Inr 1" by code_simp
  have p6: "self_play (Suc 2) 1000 9 ?m6 = Inr [(5, 1)]"
    using r6 mk6 cw6 by (rule self_play_ends) simp
  have p5: "self_play (Suc 3) 1000 9 ?m5 = Inr [(8, 0), (5, 1)]"
    using self_play_continues[OF r5 mk5 cw5, where rounds = 3] p6 by (simp add: eval_nat_numeral del: self_play.simps)
  have p4: "self_play (Suc 4) 1000 9 ?m4 = Inr [(4, 0), (8, 0), (5, 1)]"
    using self_play_continues[OF r4 mk4 cw4, where rounds = 4] p5 by (simp add: eval_nat_numeral del: self_play.simps)
  have p3: "self_play (Suc 5) 1000 9 ?m3 = Inr [(6, 0), (4, 0), (8, 0), (5, 1)]"
    using self_play_continues[OF r3 mk3 cw3, where rounds = 5] p4 by (simp add: eval_nat_numeral del: self_play.simps)
  have p2: "self_play (Suc 6) 1000 9 ?m2 = Inr [(3, 0), (6, 0), (4, 0), (8, 0), (5, 1)]"
    using self_play_continues[OF r2 mk2 cw2, where rounds = 6] p3 by (simp add: eval_nat_numeral del: self_play.simps)
  have p1: "self_play (Suc 7) 1000 9 ?m1 = Inr [(2, 0), (3, 0), (6, 0), (4, 0), (8, 0), (5, 1)]"
    using self_play_continues[OF r1 mk1 cw1, where rounds = 7] p2 by (simp add: eval_nat_numeral del: self_play.simps)
  have p0: "self_play (Suc 8) 1000 9 ?m0 = Inr [(0, 0), (2, 0), (3, 0), (6, 0), (4, 0), (8, 0), (5, 1)]"
    using self_play_continues[OF r0 mk0 cw0, where rounds = 8] p1 by (simp add: eval_nat_numeral del: self_play.simps)
  have "manager_init (Board_init 3) (Some 3) = Inr ?m0"
    by (simp add: manager_init_def Board_init_def eval_nat_numeral)
  then show ?thesis
    using p0 by (simp add: eval_nat_numeral del: self_play.simps)
qed

end
